theory Spec2Isabelle
  imports Main "HOL-Library.Char_ord"
begin

section \<open>Characters and the string methods of Python that the anonymizer calls\<close>

text \<open>
  Texts are \<open>string\<close>s, one \<open>char\<close> per character. The characters covered are the ASCII
  ones and the letter sharp s (code point 0xDF), which is lower-case, has no upper-case
  letter of its own and becomes the two letters \<open>Ss\<close> in title case: it is here for the
  case mappings of Python that change the length of a word. On these characters the
  classes and mappings below agree with \<open>str.isalnum\<close>, \<open>str.isupper\<close>, \<open>str.title\<close>, ...;
  text with other characters (whose classes come from the Unicode database) is outside
  this development.
\<close>

definition is_digit_c :: "char \<Rightarrow> bool" where
  "is_digit_c c = (CHR ''0'' \<le> c \<and> c \<le> CHR ''9'')"

definition is_upper_c :: "char \<Rightarrow> bool" where
  "is_upper_c c = (CHR ''A'' \<le> c \<and> c \<le> CHR ''Z'')"

definition is_ascii_lower_c :: "char \<Rightarrow> bool" where
  "is_ascii_lower_c c = (CHR ''a'' \<le> c \<and> c \<le> CHR ''z'')"

definition is_lower_c :: "char \<Rightarrow> bool" where
  "is_lower_c c = (is_ascii_lower_c c \<or> c = CHR 0xDF)"

definition is_alpha_c :: "char \<Rightarrow> bool" where
  "is_alpha_c c = (is_upper_c c \<or> is_lower_c c)"

definition is_alnum_c :: "char \<Rightarrow> bool" where
  "is_alnum_c c = (is_alpha_c c \<or> is_digit_c c)"

text \<open>The class \<open>[A-Za-z0-9]\<close> of a pattern, and the class \<open>\w\<close>: alphanumeric or underscore.\<close>

definition is_ascii_alnum_c :: "char \<Rightarrow> bool" where
  "is_ascii_alnum_c c = (is_upper_c c \<or> is_ascii_lower_c c \<or> is_digit_c c)"

definition is_word_c :: "char \<Rightarrow> bool" where
  "is_word_c c = (is_alnum_c c \<or> c = CHR ''_'')"

text \<open>
  The characters that \<open>str.split()\<close> and \<open>str.strip()\<close> treat as whitespace: tab, line feed,
  vertical tab, form feed, carriage return, the four separators 0x1C..0x1F and the space.
\<close>

definition is_space_c :: "char \<Rightarrow> bool" where
  "is_space_c c = ((CHR 0x09 \<le> c \<and> c \<le> CHR 0x0D) \<or> (CHR 0x1C \<le> c \<and> c \<le> CHR 0x20))"

text \<open>An ASCII letter changes case by its bit of weight 32; the sharp s is its own lower case.\<close>

definition to_lower_c :: "char \<Rightarrow> char" where
  "to_lower_c c =
     (if is_upper_c c
      then (case c of Char b0 b1 b2 b3 b4 b5 b6 b7 \<Rightarrow> Char b0 b1 b2 b3 b4 True b6 b7)
      else c)"

definition to_upper_c :: "char \<Rightarrow> char" where
  "to_upper_c c =
     (if is_ascii_lower_c c
      then (case c of Char b0 b1 b2 b3 b4 b5 b6 b7 \<Rightarrow> Char b0 b1 b2 b3 b4 False b6 b7)
      else c)"

text \<open>The title-case mapping of a character: one character, or \<open>Ss\<close> for the sharp s.\<close>

definition title_s :: "char \<Rightarrow> string" where
  "title_s c = (if c = CHR 0xDF then ''Ss'' else [to_upper_c c])"

definition isalnum :: "string \<Rightarrow> bool" where
  "isalnum s = (s \<noteq> [] \<and> list_all is_alnum_c s)"

definition isalpha :: "string \<Rightarrow> bool" where
  "isalpha s = (s \<noteq> [] \<and> list_all is_alpha_c s)"

text \<open>\<open>str.isupper\<close>: at least one cased character and no lower-case one.\<close>

definition isupper :: "string \<Rightarrow> bool" where
  "isupper s = (list_ex is_upper_c s \<and> \<not> list_ex is_lower_c s)"

definition islower :: "string \<Rightarrow> bool" where
  "islower s = (list_ex is_lower_c s \<and> \<not> list_ex is_upper_c s)"

text \<open>
  \<open>str.istitle\<close>: an upper-case character may only follow an uncased one, a lower-case
  character only a cased one, and there is at least one cased character. The two flags
  are \<open>previous_is_cased\<close> and \<open>cased\<close> of the CPython loop.
\<close>

fun istitle_from :: "bool \<Rightarrow> bool \<Rightarrow> string \<Rightarrow> bool" where
  "istitle_from prev cased [] = cased"
| "istitle_from prev cased (c # cs) =
     (if is_upper_c c then (if prev then False else istitle_from True True cs)
      else if is_lower_c c then (if \<not> prev then False else istitle_from True True cs)
      else istitle_from False cased cs)"

definition istitle :: "string \<Rightarrow> bool" where
  "istitle s = istitle_from False False s"

definition lower :: "string \<Rightarrow> string" where
  "lower s = map to_lower_c s"

text \<open>\<open>str.title\<close>: title case after an uncased character, lower case after a cased one.\<close>

fun title_from :: "bool \<Rightarrow> string \<Rightarrow> string" where
  "title_from prev [] = []"
| "title_from prev (c # cs) =
     (if prev then [to_lower_c c] else title_s c) @ title_from (is_alpha_c c) cs"

definition title :: "string \<Rightarrow> string" where
  "title s = title_from False s"

text \<open>\<open>str.capitalize\<close>: the first character in title case, the others in lower case.\<close>

definition capitalize :: "string \<Rightarrow> string" where
  "capitalize s = (case s of [] \<Rightarrow> [] | c # cs \<Rightarrow> title_s c @ map to_lower_c cs)"

definition endswith :: "string \<Rightarrow> string \<Rightarrow> bool" where
  "endswith s suf = (length suf \<le> length s \<and> drop (length s - length suf) s = suf)"

definition startswith :: "string \<Rightarrow> string \<Rightarrow> bool" where
  "startswith s pre = (take (length pre) s = pre)"

text \<open>\<open>s.replace(c, '')\<close> for a one-character \<open>c\<close>.\<close>

definition remove_char :: "char \<Rightarrow> string \<Rightarrow> string" where
  "remove_char c s = filter (\<lambda>x. x \<noteq> c) s"

text \<open>\<open>s.split(c)[-1]\<close>: what follows the last \<open>c\<close>.\<close>

definition last_segment :: "char \<Rightarrow> string \<Rightarrow> string" where
  "last_segment c s = rev (takeWhile (\<lambda>x. x \<noteq> c) (rev s))"

text \<open>\<open>s.split(c)\<close> keeps empty pieces; \<open>s.split()\<close> splits at runs of whitespace and drops them.\<close>

fun split_on :: "char \<Rightarrow> string \<Rightarrow> string list" where
  "split_on sep [] = [[]]"
| "split_on sep (c # cs) =
     (if c = sep then [] # split_on sep cs
      else (case split_on sep cs of [] \<Rightarrow> [[c]] | l # ls \<Rightarrow> (c # l) # ls))"

fun split_ws_from :: "string \<Rightarrow> string \<Rightarrow> string list" where
  "split_ws_from cur [] = (if cur = [] then [] else [cur])"
| "split_ws_from cur (c # cs) =
     (if is_space_c c then (if cur = [] then split_ws_from [] cs else cur # split_ws_from [] cs)
      else split_ws_from (cur @ [c]) cs)"

definition split_ws :: "string \<Rightarrow> string list" where
  "split_ws s = split_ws_from [] s"

fun join :: "string \<Rightarrow> string list \<Rightarrow> string" where
  "join sep [] = []"
| "join sep [x] = x"
| "join sep (x # y # ys) = x @ sep @ join sep (y # ys)"

definition strip :: "string \<Rightarrow> string" where
  "strip s = rev (dropWhile is_space_c (rev (dropWhile is_space_c s)))"

subsection \<open>Indexing and slicing\<close>

datatype py_error = IndexError | ValueError | QueryError

text \<open>\<open>s[i]\<close>: a negative index counts from the end, an index out of range raises.\<close>

definition py_index :: "string \<Rightarrow> int \<Rightarrow> py_error + char" where
  "py_index s i =
     (let n = int (length s); j = (if i < 0 then n + i else i)
      in if 0 \<le> j \<and> j < n then Inr (s ! nat j) else Inl IndexError)"

text \<open>A slice bound is moved into \<open>0..len(s)\<close>, a negative one counting from the end.\<close>

definition slice_bound :: "string \<Rightarrow> int \<Rightarrow> nat" where
  "slice_bound s i =
     (let n = int (length s) in nat (if i < 0 then max 0 (n + i) else min i n))"

definition py_slice :: "string \<Rightarrow> int \<Rightarrow> int \<Rightarrow> string" where
  "py_slice s a b = take (slice_bound s b - slice_bound s a) (drop (slice_bound s a) s)"

definition py_upto :: "string \<Rightarrow> int \<Rightarrow> string" where
  "py_upto s b = take (slice_bound s b) s"

definition py_from :: "string \<Rightarrow> int \<Rightarrow> string" where
  "py_from s a = drop (slice_bound s a) s"

section \<open>Regular expressions of the local detectors\<close>

text \<open>
  The patterns of \<open>_detect_email\<close> and \<open>_detect_phone\<close> are built from the assertion
  \<open>\b\<close>, greedy bounded or unbounded repetitions of one character class, an optional
  group and concatenation. \<open>rmatch\<close> is the backtracking matcher of \<open>re\<close> in
  continuation-passing style: alternatives are tried in the order of the engine (a greedy
  repetition the longest first, an optional group present first) and the first one under
  which the rest of the pattern matches is taken. The matcher state is the character
  before the position (\<open>None\<close> at the start of the text), the text from the position on,
  and the position.
\<close>

datatype regex =
    Bnd
  | Rep "char \<Rightarrow> bool" nat "nat option"
  | Opt regex
  | Cat regex regex
  | Eps

type_synonym mstate = "char option \<times> string \<times> nat"

definition at_boundary :: "char option \<Rightarrow> string \<Rightarrow> bool" where
  "at_boundary p cs =
     ((case p of None \<Rightarrow> False | Some c \<Rightarrow> is_word_c c)
        \<noteq> (case cs of [] \<Rightarrow> False | c # _ \<Rightarrow> is_word_c c))"

text \<open>How many characters of the class follow, at most the upper bound of the repetition.\<close>

fun run_len :: "(char \<Rightarrow> bool) \<Rightarrow> nat option \<Rightarrow> string \<Rightarrow> nat" where
  "run_len P lim [] = 0"
| "run_len P lim (c # cs) =
     (if lim = Some 0 \<or> \<not> P c then 0
      else Suc (run_len P (map_option (\<lambda>n. n - 1) lim) cs))"

fun advance :: "nat \<Rightarrow> mstate \<Rightarrow> mstate" where
  "advance 0 st = st"
| "advance (Suc n) (p, [], i) = (p, [], i)"
| "advance (Suc n) (p, c # cs, i) = advance n (Some c, cs, Suc i)"

fun first_some :: "('a \<Rightarrow> 'b option) \<Rightarrow> 'a list \<Rightarrow> 'b option" where
  "first_some k [] = None"
| "first_some k (x # xs) = (case k x of Some r \<Rightarrow> Some r | None \<Rightarrow> first_some k xs)"

fun rmatch :: "regex \<Rightarrow> mstate \<Rightarrow> (mstate \<Rightarrow> nat option) \<Rightarrow> nat option" where
  "rmatch Eps st k = k st"
| "rmatch Bnd (p, cs, i) k = (if at_boundary p cs then k (p, cs, i) else None)"
| "rmatch (Rep P m lim) (p, cs, i) k =
     first_some (\<lambda>n. k (advance n (p, cs, i))) (rev [m ..< Suc (run_len P lim cs)])"
| "rmatch (Opt r) st k = (case rmatch r st k of Some e \<Rightarrow> Some e | None \<Rightarrow> k st)"
| "rmatch (Cat a b) st k = rmatch a st (\<lambda>st'. rmatch b st' k)"

text \<open>The end of the match that starts at the position of the state, if there is one.\<close>

definition match_at :: "regex \<Rightarrow> mstate \<Rightarrow> nat option" where
  "match_at r st = rmatch r st (\<lambda>(p, cs, i). Some i)"

text \<open>
  \<open>re.finditer\<close>: the matches from left to right, each search starting where the match
  before it ended (\<open>skip\<close>). None of the patterns here matches the empty string.
\<close>

fun scan :: "regex \<Rightarrow> char option \<Rightarrow> string \<Rightarrow> nat \<Rightarrow> nat \<Rightarrow> (nat \<times> nat) list" where
  "scan r p [] i skip =
     (if i < skip then []
      else (case match_at r (p, [], i) of Some e \<Rightarrow> [(i, e)] | None \<Rightarrow> []))"
| "scan r p (c # cs) i skip =
     (if i < skip then scan r (Some c) cs (Suc i) skip
      else (case match_at r (p, c # cs, i) of
              Some e \<Rightarrow> (i, e) # scan r (Some c) cs (Suc i) (max e (Suc i))
            | None \<Rightarrow> scan r (Some c) cs (Suc i) skip))"

definition finditer :: "regex \<Rightarrow> string \<Rightarrow> (nat \<times> nat) list" where
  "finditer r s = scan r None s 0 0"

definition cat :: "regex list \<Rightarrow> regex" where
  "cat rs = foldr Cat rs Eps"

definition lit :: "char \<Rightarrow> regex" where
  "lit c = Rep (\<lambda>x. x = c) 1 (Some 1)"

definition opt_of :: "string \<Rightarrow> regex" where
  "opt_of s = Rep (\<lambda>x. x \<in> set s) 0 (Some 1)"

definition digits :: "nat \<Rightarrow> nat \<Rightarrow> regex" where
  "digits m n = Rep is_digit_c m (Some n)"

text \<open>\<open>\b[A-Za-z0-9._%+-]+@[A-Za-z0-9.-]+\.[A-Z|a-z]{2,}\b\<close>\<close>

definition email_pattern :: regex where
  "email_pattern =
     cat [Bnd,
          Rep (\<lambda>c. is_ascii_alnum_c c \<or> c \<in> set ''._%+-'') 1 None,
          lit CHR ''@'',
          Rep (\<lambda>c. is_ascii_alnum_c c \<or> c \<in> set ''.-'') 1 None,
          lit CHR ''.'',
          Rep (\<lambda>c. is_upper_c c \<or> is_ascii_lower_c c \<or> c = CHR ''|'') 2 None,
          Bnd]"

text \<open>The optional group \<open>(?:\+?\d{1,3}[-.]?)?\<close> that every phone pattern starts with.\<close>

definition country_code :: regex where
  "country_code = Opt (cat [opt_of ''+'', digits 1 3, opt_of ''-.''])"

text \<open>
  \<open>\b(?:\+?\d{1,3}[-.]?)?\(?\d{3}\)?[-.]?\d{3}[-.]?\d{4}\b\<close>, and the four patterns
  \<open>\b(?:\+?\d{1,3}[-.]?)?\d{a,b}[-.]?\d{a,b}[-.]?\d{a,b}\b\<close> with the bounds
  2..4, 1..4, 1..3 and 1..2.
\<close>

definition phone_us :: regex where
  "phone_us =
     cat [Bnd, country_code, opt_of ''('', digits 3 3, opt_of '')'', opt_of ''-.'',
          digits 3 3, opt_of ''-.'', digits 4 4, Bnd]"

definition phone_groups :: "nat \<Rightarrow> nat \<Rightarrow> regex" where
  "phone_groups a b =
     cat [Bnd, country_code, digits a b, opt_of ''-.'', digits a b, opt_of ''-.'',
          digits a b, Bnd]"

definition phone_patterns :: "regex list" where
  "phone_patterns =
     [phone_us, phone_groups 2 4, phone_groups 1 4, phone_groups 1 3, phone_groups 1 2]"

section \<open>Entities\<close>

text \<open>
  An entity is the dictionary with the keys \<open>entity\<close>, \<open>start\<close>, \<open>end\<close>, \<open>word\<close> and, not
  always, \<open>replacement\<close>. A record of the classifier's answer is a dictionary in which
  each of the keys \<open>entity_group\<close>, \<open>label\<close>, \<open>start\<close>, \<open>end\<close>, \<open>word\<close> may be missing.
\<close>

record entity_rec =
  entity :: string
  start :: int
  endpos :: int
  word :: string
  replacement :: "string option"

record raw_rec =
  entity_group :: "string option"
  label :: "string option"
  raw_start :: "int option"
  raw_end :: "int option"
  raw_word :: "string option"

definition replacement_dict :: "(string \<times> string) list" where
  "replacement_dict =
     [(''PER'', ''[PERSON]''), (''ORG'', ''[ORGANIZATION]''), (''LOC'', ''[LOCATION]''),
      (''MISC'', ''[MISC]''), (''EMAIL'', ''[EMAIL]''), (''PHONE'', ''[PHONE]'')]"

text \<open>\<open>self.replacement_dict.get(key, '[UNKNOWN]')\<close>\<close>

definition dict_get :: "string \<Rightarrow> string" where
  "dict_get key = (case map_of replacement_dict key of Some v \<Rightarrow> v | None \<Rightarrow> ''[UNKNOWN]'')"

section \<open>The local detectors\<close>

definition substring :: "string \<Rightarrow> nat \<times> nat \<Rightarrow> string" where
  "substring s m = take (snd m - fst m) (drop (fst m) s)"

definition detect_email :: "string \<Rightarrow> entity_rec list" where
  "detect_email text =
     map (\<lambda>m. \<lparr>entity = ''EMAIL'', start = int (fst m), endpos = int (snd m),
                word = substring text m, replacement = None\<rparr>)
         (finditer email_pattern text)"

text \<open>\<open>match.group().replace('-', '').replace('.', '').replace('(', '').replace(')', '')\<close>\<close>

definition strip_separators :: "string \<Rightarrow> string" where
  "strip_separators w =
     remove_char CHR '')'' (remove_char CHR ''('' (remove_char CHR ''.'' (remove_char CHR ''-'' w)))"

definition phone_entity :: "string \<Rightarrow> nat \<times> nat \<Rightarrow> entity_rec" where
  "phone_entity text m =
     \<lparr>entity = ''PHONE'', start = int (fst m), endpos = int (snd m),
      word = substring text m, replacement = Some ''[PHONE]''\<rparr>"

definition detect_phone :: "string \<Rightarrow> entity_rec list" where
  "detect_phone text =
     concat (map (\<lambda>pattern.
                    map (phone_entity text)
                      (filter (\<lambda>m. 6 \<le> length (strip_separators (substring text m)))
                         (finditer pattern text)))
                 phone_patterns)"

section \<open>Normalisation and preprocessing\<close>

text \<open>
  \<open>unicodedata.normalize('NFKC', text)\<close> leaves every ASCII character and the sharp s as
  they are, so on the texts of this development \<open>_normalize_text\<close> returns its argument.
\<close>

definition normalize_text :: "string \<Rightarrow> string" where
  "normalize_text text = text"

definition preprocess_word :: "string \<Rightarrow> string" where
  "preprocess_word w =
     (if isupper w \<and> length w > 2 then (if isalpha w then title w else w)
      else if islower w \<and> length w > 2
           then (if isalpha w \<and> is_alpha_c (hd w) then capitalize w else w)
      else w)"

definition preprocess_line :: "string \<Rightarrow> string" where
  "preprocess_line line = join '' '' (map preprocess_word (split_ws line))"

definition preprocess_text :: "string \<Rightarrow> string" where
  "preprocess_text text = join [CHR 0x0A] (map preprocess_line (split_on (CHR 0x0A) text))"

section \<open>The classifier\<close>

text \<open>
  The inference service is a function from the posted text to what the call gives: a
  \<open>RequestException\<close> (no connection, a status that is not a success, a body that is not
  JSON) or the decoded body. The texts posted so far are the state of the network.
\<close>

datatype item = Dict raw_rec | Sub "item list" | Scalar

datatype body = JList "item list" | JDict "item list option" | JOther

datatype reply = RequestException | Body body

type_synonym service = "string \<Rightarrow> reply"

definition query_model ::
  "service \<Rightarrow> string \<Rightarrow> string list \<Rightarrow> (py_error + item list) \<times> string list" where
  "query_model post text sent =
     (let processed_text = preprocess_text text; sent' = sent @ [processed_text]
      in case post processed_text of
           RequestException \<Rightarrow> (Inl QueryError, sent')
         | Body (JList result) \<Rightarrow>
             (case result of Sub inner # _ \<Rightarrow> (Inr inner, sent') | _ \<Rightarrow> (Inr result, sent'))
         | Body (JDict entities) \<Rightarrow>
             (case entities of Some es \<Rightarrow> (Inr es, sent') | None \<Rightarrow> (Inr [], sent'))
         | Body JOther \<Rightarrow> (Inl ValueError, sent'))"

section \<open>Resolution of the classifier's records\<close>

definition location_suffixes :: "string list" where
  "location_suffixes =
     [''burg'', ''berg'', ''town'', ''city'', ''ville'', ''polis'', ''grad'', ''abad'', ''pur'',
      ''nagar'', ''pore'', ''stan'', ''land'', ''ia'', ''ya'']"

definition location_prefixes :: "string list" where
  "location_prefixes =
     [''new'', ''old'', ''north'', ''south'', ''east'', ''west'', ''upper'', ''lower'', ''port'',
      ''fort'', ''saint'', ''san'', ''santa'']"

text \<open>
  The values of \<open>surname_patterns\<close>, group after group. The fourth Nordic suffix has two
  characters beyond ASCII between \<open>d\<close> and \<open>ttir\<close>; they are written as two characters
  above 127, which no ASCII word contains.
\<close>

definition surname_patterns :: "string list" where
  "surname_patterns =
     [''ov'', ''ev'', ''ski'', ''sky'', ''ova'', ''eva'',
      ''yan'', ''ian'', ''jin'', ''chen'', ''li'', ''wang'',
      ''sen'', ''sson'', ''dottir'', [CHR ''d'', CHR 0xFE, CHR 0xFF, CHR ''t'', CHR ''t'', CHR ''i'', CHR ''r''],
      ''zadeh'', ''oglu'', ''oglu'', ''oglu'', ''pour'',
      ''raj'', ''kumar'', ''singh'', ''patel'', ''sharma'',
      ''ez'', ''es'', ''os'', ''as'', ''is'']"

text \<open>\<open>entity_group.split('-')[-1] if '-' in entity_group else entity_group\<close>\<close>

definition strip_prefix :: "string \<Rightarrow> string" where
  "strip_prefix g = (if CHR ''-'' \<in> set g then last_segment CHR ''-'' g else g)"

definition group_of :: "raw_rec \<Rightarrow> string" where
  "group_of r =
     strip_prefix (case entity_group r of Some g \<Rightarrow> g
                   | None \<Rightarrow> (case label r of Some l \<Rightarrow> l | None \<Rightarrow> []))"

text \<open>\<open>len(word) < 2 or not word.replace('-', '').isalnum()\<close>: the record is skipped.\<close>

definition skipped :: "string \<Rightarrow> bool" where
  "skipped w = (length w < 2 \<or> \<not> isalnum (remove_char CHR ''-'' w))"

definition is_surname :: "string \<Rightarrow> bool" where
  "is_surname w = list_ex (\<lambda>pattern. endswith (lower w) pattern) surname_patterns"

definition is_location :: "string \<Rightarrow> bool" where
  "is_location w =
     (list_ex (endswith (lower w)) location_suffixes
      \<or> list_ex (startswith (lower w)) location_prefixes)"

text \<open>The chain of conditionals that gives a record its replacement.\<close>

definition resolve :: "string \<Rightarrow> string \<Rightarrow> string" where
  "resolve g w =
     (if g = ''PER'' then
        (if isupper w \<and> isalpha w then ''[PERSON]''
         else if islower w then ''[person]''
         else if istitle w then (if is_surname w then ''[SURNAME]'' else ''[Person]'')
         else ''[PERSON]'')
      else if g = ''ORG'' then
        (if isupper w \<and> isalpha w then ''[PERSON]''
         else if istitle w \<and> isalpha w then ''[Person]''
         else if \<not> isalpha w then ''[ORGANIZATION]''
         else dict_get g)
      else if g = ''LOC'' then
        (if isupper w \<and> isalpha w then ''[PERSON]''
         else if istitle w \<and> isalpha w
              then (if is_location w then ''[LOCATION]'' else ''[Person]'')
         else dict_get g)
      else dict_get g)"

definition get_int :: "int option \<Rightarrow> int" where
  "get_int v = (case v of Some i \<Rightarrow> i | None \<Rightarrow> 0)"

definition get_str :: "string option \<Rightarrow> string" where
  "get_str v = (case v of Some s \<Rightarrow> s | None \<Rightarrow> [])"

text \<open>One turn of the loop over \<open>ner_results\<close>: nothing, or the entity that is appended.\<close>

definition resolve_item :: "item \<Rightarrow> entity_rec option" where
  "resolve_item it =
     (case it of
        Dict r \<Rightarrow>
          (if skipped (get_str (raw_word r)) then None
           else Some \<lparr>entity = group_of r, start = get_int (raw_start r),
                      endpos = get_int (raw_end r), word = get_str (raw_word r),
                      replacement = Some (resolve (group_of r) (get_str (raw_word r)))\<rparr>)
      | _ \<Rightarrow> None)"

text \<open>
  \<open>all_entities\<close> before the sort: the resolved records, then the entities of the local
  detectors (\<open>all_entities.extend(additional_entities)\<close>).
\<close>

definition merge_entities :: "item list \<Rightarrow> entity_rec list \<Rightarrow> entity_rec list" where
  "merge_entities ner_results additional_entities =
     List.map_filter resolve_item ner_results @ additional_entities"

text \<open>
  \<open>all_entities.sort(key=lambda x: x['start'], reverse=True)\<close>: descending in \<open>start\<close>,
  entities with the same \<open>start\<close> staying in the order they had.
\<close>

definition sort_entities :: "entity_rec list \<Rightarrow> entity_rec list" where
  "sort_entities es = sort_key (\<lambda>e. - start e) es"

section \<open>The rewrite\<close>

text \<open>\<open>while start > 0 and anonymized_text[start-1].isalnum(): start -= 1\<close>\<close>

function expand_start :: "string \<Rightarrow> int \<Rightarrow> py_error + int" where
  "expand_start t s =
     (if s > 0
      then (case py_index t (s - 1) of
              Inl err \<Rightarrow> Inl err
            | Inr c \<Rightarrow> if is_alnum_c c then expand_start t (s - 1) else Inr s)
      else Inr s)"
  by pat_completeness auto
termination
  by (relation "measure (\<lambda>(t, s). nat s)") auto

text \<open>\<open>while end < len(anonymized_text) and anonymized_text[end].isalnum(): end += 1\<close>\<close>

function expand_end :: "string \<Rightarrow> int \<Rightarrow> py_error + int" where
  "expand_end t e =
     (if e < int (length t)
      then (case py_index t e of
              Inl err \<Rightarrow> Inl err
            | Inr c \<Rightarrow> if is_alnum_c c then expand_end t (e + 1) else Inr e)
      else Inr e)"
  by pat_completeness auto
termination
  by (relation "measure (\<lambda>(t, e). nat (int (length t) - e))") auto

text \<open>\<open>start == 0 or not anonymized_text[start-1].isalnum()\<close>\<close>

definition left_ok :: "string \<Rightarrow> int \<Rightarrow> py_error + bool" where
  "left_ok t s =
     (if s = 0 then Inr True
      else (case py_index t (s - 1) of Inl err \<Rightarrow> Inl err | Inr c \<Rightarrow> Inr (\<not> is_alnum_c c)))"

text \<open>\<open>end == len(anonymized_text) or not anonymized_text[end].isalnum()\<close>\<close>

definition right_ok :: "string \<Rightarrow> int \<Rightarrow> py_error + bool" where
  "right_ok t e =
     (if e = int (length t) then Inr True
      else (case py_index t e of Inl err \<Rightarrow> Inl err | Inr c \<Rightarrow> Inr (\<not> is_alnum_c c)))"

text \<open>\<open>entity.get('replacement', self.replacement_dict.get(entity['entity'], '[UNKNOWN]'))\<close>\<close>

definition replacement_of :: "entity_rec \<Rightarrow> string" where
  "replacement_of e = (case replacement e of Some r \<Rightarrow> r | None \<Rightarrow> dict_get (entity e))"

text \<open>
  One turn of the rewriting loop on the working text: the text after it and, when the
  replacement was made, the bounds \<open>start\<close> and \<open>end\<close> between which it was made.
\<close>

definition rewrite_step :: "string \<Rightarrow> entity_rec \<Rightarrow> py_error + string \<times> (int \<times> int) option" where
  "rewrite_step t e =
     (case expand_start t (start e) of
        Inl err \<Rightarrow> Inl err
      | Inr s \<Rightarrow>
     (case expand_end t (endpos e) of
        Inl err \<Rightarrow> Inl err
      | Inr en \<Rightarrow>
     (case left_ok t s of
        Inl err \<Rightarrow> Inl err
      | Inr False \<Rightarrow> Inr (t, None)
      | Inr True \<Rightarrow>
     (case right_ok t en of
        Inl err \<Rightarrow> Inl err
      | Inr False \<Rightarrow> Inr (t, None)
      | Inr True \<Rightarrow>
          (let word_to_replace = py_slice t s en
           in if isalnum word_to_replace \<and> length word_to_replace > 1
              then Inr (py_upto t s @ replacement_of e @ py_from t en, Some (s, en))
              else Inr (t, None))))))"

text \<open>
  The loop over the sorted entities. Beside the text it returns the entities whose
  replacement was made, in the order of the loop, each with the bounds of the slice that
  was replaced.
\<close>

fun rewrite_all ::
  "string \<Rightarrow> entity_rec list \<Rightarrow> py_error + string \<times> (entity_rec \<times> int \<times> int) list" where
  "rewrite_all t [] = Inr (t, [])"
| "rewrite_all t (e # es) =
     (case rewrite_step t e of
        Inl err \<Rightarrow> Inl err
      | Inr (t', made) \<Rightarrow>
          (case rewrite_all t' es of
             Inl err \<Rightarrow> Inl err
           | Inr (t'', applied) \<Rightarrow>
               Inr (t'', (case made of None \<Rightarrow> applied | Some se \<Rightarrow> (e, se) # applied))))"

text \<open>What \<open>anonymize_text\<close> does once the classifier has answered.\<close>

definition anonymize_with ::
  "item list \<Rightarrow> string \<Rightarrow> py_error + string \<times> (entity_rec \<times> int \<times> int) list" where
  "anonymize_with ner_results text =
     rewrite_all text
       (sort_entities (merge_entities ner_results (detect_email text @ detect_phone text)))"

definition anonymize_text ::
  "service \<Rightarrow> string \<Rightarrow> string list \<Rightarrow> (py_error + string) \<times> string list" where
  "anonymize_text post text0 sent =
     (let text = normalize_text text0
      in case query_model post text sent of
           (Inl err, sent') \<Rightarrow> (Inl err, sent')
         | (Inr ner_results, sent') \<Rightarrow>
             (case anonymize_with ner_results text of
                Inl err \<Rightarrow> (Inl err, sent')
              | Inr (anonymized_text, applied) \<Rightarrow> (Inr anonymized_text, sent')))"

section \<open>The handler of the Anonymize button\<close>

text \<open>
  \<open>main\<close> of \<open>app.py\<close> does not call \<open>anonymize_text\<close>: when the button is pressed it tests
  \<open>input_text.strip()\<close>, queries the classifier itself, gives a casing-dependent replacement
  to \<open>PER\<close> records only, and substitutes at the offsets as they are. What it shows is a
  warning, an error, or the anonymized text with the entities.
\<close>

datatype shown = Warning string | Error py_error | Anonymized string "entity_rec list"

definition app_replacement :: "string \<Rightarrow> string \<Rightarrow> string" where
  "app_replacement g w =
     (if g = ''PER'' then
        (if isupper w then ''[PERSON]''
         else if islower w then ''[person]''
         else if istitle w then ''[Person]''
         else ''[PERSON]'')
      else dict_get g)"

definition app_item :: "item \<Rightarrow> entity_rec option" where
  "app_item it =
     (case it of
        Dict r \<Rightarrow>
          Some \<lparr>entity = group_of r, start = get_int (raw_start r),
                endpos = get_int (raw_end r), word = get_str (raw_word r),
                replacement = Some (app_replacement (group_of r) (get_str (raw_word r)))\<rparr>
      | _ \<Rightarrow> None)"

definition app_substitute :: "string \<Rightarrow> entity_rec \<Rightarrow> string" where
  "app_substitute t e = py_upto t (start e) @ replacement_of e @ py_from t (endpos e)"

definition on_anonymize :: "service \<Rightarrow> string \<Rightarrow> string list \<Rightarrow> shown \<times> string list" where
  "on_anonymize post input_text sent =
     (if strip input_text \<noteq> []
      then (case query_model post input_text sent of
              (Inl err, sent') \<Rightarrow> (Error err, sent')
            | (Inr ner_results, sent') \<Rightarrow>
                (let additional_entities =
                       map (\<lambda>e. e\<lparr>replacement := Some (dict_get (entity e))\<rparr>)
                         (detect_email input_text @ detect_phone input_text);
                     all_entities =
                       sort_entities (List.map_filter app_item ner_results @ additional_entities)
                 in (Anonymized (foldl app_substitute input_text all_entities) all_entities,
                     sent')))
      else (Warning ''Please enter some text to anonymize.'', sent))"

section \<open>Notions used in the statements\<close>

text \<open>Two half-open ranges of offsets overlap when some offset lies in both.\<close>

definition overlap :: "int \<times> int \<Rightarrow> int \<times> int \<Rightarrow> bool" where
  "overlap a b = (max (fst a) (fst b) < min (snd a) (snd b))"

fun non_overlapping :: "(int \<times> int) list \<Rightarrow> bool" where
  "non_overlapping [] = True"
| "non_overlapping (r # rs) = (list_all (\<lambda>q. \<not> overlap r q) rs \<and> non_overlapping rs)"

text \<open>The span of an applied entity as the detector gave it, and the slice that was replaced.\<close>

definition given_span :: "entity_rec \<times> int \<times> int \<Rightarrow> int \<times> int" where
  "given_span a = (start (fst a), endpos (fst a))"

definition replaced_slice :: "entity_rec \<times> int \<times> int \<Rightarrow> int \<times> int" where
  "replaced_slice a = snd a"

text \<open>
  \<open>clear_of text a b\<close>: the entity \<open>b\<close> starts at or before the first character of the
  alphanumeric run that the start of \<open>a\<close> expands to in the text.
\<close>

definition clear_of :: "string \<Rightarrow> entity_rec \<Rightarrow> entity_rec \<Rightarrow> bool" where
  "clear_of text a b =
     (case expand_start text (start a) of Inr s \<Rightarrow> start b \<le> s | Inl err \<Rightarrow> True)"

definition separated :: "string \<Rightarrow> entity_rec list \<Rightarrow> bool" where
  "separated text es =
     (list_all (\<lambda>e. 0 \<le> start e \<and> 0 \<le> endpos e) es \<and> sorted_wrt (clear_of text) es)"

text \<open>
  The characters of \<open>t\<close> from \<open>s\<close> up to \<open>en\<close> are alphanumeric and the run cannot be
  extended on either side.
\<close>

definition maximal_run :: "string \<Rightarrow> int \<Rightarrow> int \<Rightarrow> bool" where
  "maximal_run t s en =
     (0 \<le> s \<and> s \<le> en \<and> en \<le> int (length t)
      \<and> list_all is_alnum_c (take (nat (en - s)) (drop (nat s) t))
      \<and> (s = 0 \<or> \<not> is_alnum_c (t ! nat (s - 1)))
      \<and> (en = int (length t) \<or> \<not> is_alnum_c (t ! nat en)))"

text \<open>A line with whitespace at its start or end, or with two whitespace characters in a row.\<close>

fun double_space :: "string \<Rightarrow> bool" where
  "double_space (a # b # cs) = ((is_space_c a \<and> is_space_c b) \<or> double_space (b # cs))"
| "double_space cs = False"

definition untidy :: "string \<Rightarrow> bool" where
  "untidy line =
     ((line \<noteq> [] \<and> (is_space_c (hd line) \<or> is_space_c (last line))) \<or> double_space line)"

definition digit_count :: "string \<Rightarrow> nat" where
  "digit_count w = length (filter is_digit_c w)"

text \<open>The characters of ASCII.\<close>

definition is_ascii_c :: "char \<Rightarrow> bool" where
  "is_ascii_c c = (c \<le> CHR 0x7F)"

text \<open>The strings that a pattern can consume, the assertion \<open>\b\<close> left aside.\<close>

primrec lang :: "regex \<Rightarrow> string set" where
  "lang Bnd = {[]}"
| "lang (Rep P m lim) =
     {w. list_all P w \<and> m \<le> length w \<and> (case lim of None \<Rightarrow> True | Some n \<Rightarrow> length w \<le> n)}"
| "lang (Opt r) = insert [] (lang r)"
| "lang (Cat a b) = {u @ v | u v. u \<in> lang a \<and> v \<in> lang b}"
| "lang Eps = {[]}"

text \<open>A digit or one of the separators that \<open>_detect_phone\<close> strips.\<close>

definition phone_char :: "char \<Rightarrow> bool" where
  "phone_char c = (is_digit_c c \<or> c \<in> set ''-.()'')"

text \<open>A pattern all of whose character classes hold digits and separators only.\<close>

primrec plain :: "regex \<Rightarrow> bool" where
  "plain Bnd = True"
| "plain (Rep P m lim) = (\<forall>c. P c \<longrightarrow> phone_char c)"
| "plain (Opt r) = plain r"
| "plain (Cat a b) = (plain a \<and> plain b)"
| "plain Eps = True"

section \<open>Casing shapes\<close>

lemma upper_not_lower: "is_upper_c c \<Longrightarrow> \<not> is_lower_c c"
  by (auto simp: is_upper_c_def is_lower_c_def is_ascii_lower_c_def less_eq_char_def)










section \<open>Which surface the heuristics read\<close>

lemma group_of_offsets: "group_of (r\<lparr>raw_start := a, raw_end := b\<rparr>) = group_of r"
  by (simp add: group_of_def split: option.splits)

text \<open>
  C5, as the code has it. The surface that the heuristics read is the \<open>word\<close> field of the
  classifier's record, as the classifier returned it for the preprocessed text: the
  entity carries that word, its replacement is computed from the label and that word, and
  the offsets of the record have no part in it (any other offsets give the same
  replacement). Nothing is sliced out of the original text.
\<close>

theorem surface_is_classifier_word:
  assumes "resolve_item (Dict r) = Some e"
  shows "word e = get_str (raw_word r)
       \<and> replacement e = Some (resolve (group_of r) (get_str (raw_word r)))
       \<and> map_option replacement (resolve_item (Dict (r\<lparr>raw_start := a, raw_end := b\<rparr>)))
           = Some (replacement e)"
  using assms by (auto simp: resolve_item_def group_of_offsets split: if_splits)

theorem surface_is_classifier_word_witness:
  "resolve_item (Dict \<lparr>entity_group = Some ''PER'', label = None, raw_start = Some 0,
       raw_end = Some 4, raw_word = Some ''John''\<rparr>)
     = Some \<lparr>entity = ''PER'', start = 0, endpos = 4, word = ''John'',
             replacement = Some ''[Person]''\<rparr>
   \<and> map_option replacement (resolve_item (Dict \<lparr>entity_group = Some ''PER'', label = None,
       raw_start = Some 7, raw_end = Some 9, raw_word = Some ''John''\<rparr>))
     = Some (Some ''[Person]'')"
proof -
  let ?r = "\<lparr>entity_group = Some ''PER'', label = None, raw_start = Some 0,
       raw_end = Some 4, raw_word = Some ''John''\<rparr>"
  let ?e = "\<lparr>entity = ''PER'', start = 0, endpos = 4, word = ''John'',
             replacement = Some ''[Person]''\<rparr>"
  have h: "resolve_item (Dict ?r) = Some ?e"
    by code_simp
  have "map_option replacement (resolve_item (Dict (?r\<lparr>raw_start := Some 7, raw_end := Some 9\<rparr>)))
          = Some (replacement ?e)"
    using surface_is_classifier_word [OF h] by blast
  then show ?thesis
    using h by simp
qed

text \<open>
  C5 as stated fails. For the text \<open>JOHN\<close> the classifier is sent \<open>John\<close>; its record for
  the offsets 0..4 carries the word \<open>John\<close>, and the entity gets \<open>[Person]\<close> from that word,
  whereas the slice 0..4 of the original text is \<open>JOHN\<close>, which would give \<open>[PERSON]\<close>.
\<close>

theorem surface_not_resliced:
  "preprocess_text ''JOHN'' = ''John''
   \<and> resolve_item (Dict \<lparr>entity_group = Some ''PER'', label = None, raw_start = Some 0,
        raw_end = Some 4, raw_word = Some ''John''\<rparr>)
      = Some \<lparr>entity = ''PER'', start = 0, endpos = 4, word = ''John'',
              replacement = Some ''[Person]''\<rparr>
   \<and> py_slice ''JOHN'' 0 4 = ''JOHN''
   \<and> resolve ''PER'' ''JOHN'' = ''[PERSON]''"
  by code_simp

section \<open>The filter\<close>

lemma map_filter_resolve_kept:
  "e \<in> set (List.map_filter resolve_item ner) \<Longrightarrow> \<not> skipped (word e)"
  by (auto simp: List.map_filter_def resolve_item_def split: item.splits if_splits)

lemma set_sort_entities: "set (sort_entities es) = set es"
  by (simp add: sort_entities_def)

lemma length_sort_entities: "length (sort_entities es) = length es"
  by (simp add: sort_entities_def)

text \<open>
  C8, as the code has it. The test on the surface (shorter than 2 characters, or not
  alphanumeric once hyphens are removed) is made on the classifier's records, before the
  merge: a record that fails it yields no entity. The entities of the local detectors are
  appended after it and all of them reach the rewrite; an entity that reaches the rewrite
  with a surface failing the test is one of theirs.
\<close>

theorem filter_on_classifier_records_only:
  "(\<forall>r. skipped (get_str (raw_word r)) \<longrightarrow> resolve_item (Dict r) = None)
   \<and> (\<forall>e \<in> set additional. e \<in> set (sort_entities (merge_entities ner additional)))
   \<and> (\<forall>e \<in> set (sort_entities (merge_entities ner additional)).
         e \<in> set additional \<or> \<not> skipped (word e))
   \<and> length (sort_entities (merge_entities ner additional))
       = length (List.map_filter resolve_item ner) + length additional"
  using map_filter_resolve_kept
  by (auto simp: set_sort_entities length_sort_entities merge_entities_def resolve_item_def)

text \<open>
  C8 as stated fails. For the text \<open>j@x.com\<close> and no classifier record, the entities
  handed to the rewrite contain the e-mail span, whose surface is not alphanumeric.
\<close>

theorem local_spans_not_filtered:
  "map word (sort_entities (merge_entities [] (detect_email ''j@x.com'' @ detect_phone ''j@x.com'')))
     = [''j@x.com'']
   \<and> skipped ''j@x.com''"
  by code_simp

theorem filter_on_classifier_records_only_witness:
  "skipped ''J'' \<and> skipped ''j@x.com''
   \<and> resolve_item (Dict \<lparr>entity_group = Some ''PER'', label = None, raw_start = Some 0,
        raw_end = Some 1, raw_word = Some ''J''\<rparr>) = None
   \<and> detect_email ''j@x.com'' = [\<lparr>entity = ''EMAIL'', start = 0, endpos = 7, word = ''j@x.com'', replacement = None\<rparr>]
   \<and> \<lparr>entity = ''EMAIL'', start = 0, endpos = 7, word = ''j@x.com'', replacement = None\<rparr>
       \<in> set (sort_entities (merge_entities
            [Dict \<lparr>entity_group = Some ''PER'', label = None, raw_start = Some 0,
               raw_end = Some 1, raw_word = Some ''J''\<rparr>] (detect_email ''j@x.com'')))"
proof -
  let ?r = "\<lparr>entity_group = Some ''PER'', label = None, raw_start = Some 0,
        raw_end = Some 1, raw_word = Some ''J''\<rparr>"
  have s: "skipped ''J''" "skipped ''j@x.com''"
    by code_simp+
  have d: "detect_email ''j@x.com'' = [\<lparr>entity = ''EMAIL'', start = 0, endpos = 7, word = ''j@x.com'', replacement = None\<rparr>]"
    by code_simp
  show ?thesis
    using filter_on_classifier_records_only [of "detect_email ''j@x.com''" "[Dict ?r]"] s d
    by (simp add: get_str_def)
qed

section \<open>Blank input\<close>

lemma strip_blank:
  assumes "list_all is_space_c s"
  shows "strip s = []"
proof -
  have blank: "dropWhile is_space_c s = []"
    using assms by (simp add: list_all_iff)
  show ?thesis
    unfolding strip_def blank by simp
qed

lemma anonymize_text_sent:
  "snd (anonymize_text post text sent) = sent @ [preprocess_text text]"
  by (simp add: anonymize_text_def query_model_def normalize_text_def Let_def
      split: reply.splits body.splits list.splits item.splits option.splits sum.splits prod.splits)

text \<open>
  C4, as the code has it. For an input of whitespace only (the empty input included), the
  handler of the Anonymize button posts nothing and shows the warning
  \<open>Please enter some text to anonymize.\<close>; \<open>anonymize_text\<close> has no such test and posts the
  preprocessed text to the classifier whatever the input is.
\<close>

theorem blank_input_guard_in_handler:
  assumes "list_all is_space_c input_text"
  shows "on_anonymize post input_text sent = (Warning ''Please enter some text to anonymize.'', sent)
       \<and> snd (anonymize_text post input_text sent) = sent @ [preprocess_text input_text]"
  using strip_blank [OF assms] by (simp add: on_anonymize_def anonymize_text_sent)

theorem blank_input_guard_in_handler_witness:
  "list_all is_space_c ''  ''
   \<and> on_anonymize (\<lambda>t. RequestException) ''  '' [] = (Warning ''Please enter some text to anonymize.'', [])
   \<and> snd (anonymize_text (\<lambda>t. RequestException) ''  '' []) = [[]]"
proof -
  have h: "list_all is_space_c ''  ''"
    by code_simp
  have p: "preprocess_text ''  '' = []"
    by code_simp
  show ?thesis
    using h blank_input_guard_in_handler [OF h, of "\<lambda>t. RequestException" "[]"] p by simp
qed

text \<open>
  C4 as stated fails. On the empty text and on two spaces \<open>anonymize_text\<close> posts the
  (empty) preprocessed text; when the call fails it raises, and when the classifier
  answers with no record it returns the text as it was.
\<close>

theorem anonymize_text_queries_on_blank:
  "anonymize_text (\<lambda>t. RequestException) [] [] = (Inl QueryError, [[]])
   \<and> anonymize_text (\<lambda>t. RequestException) ''  '' [] = (Inl QueryError, [[]])
   \<and> anonymize_text (\<lambda>t. Body (JList [])) ''  '' [] = (Inr ''  '', [[]])"
  by code_simp

section \<open>What the phone patterns match\<close>

lemma first_some_Some: "first_some f xs = Some r \<Longrightarrow> \<exists>x \<in> set xs. f x = Some r"
  by (induction xs) (auto split: option.splits)

lemma run_len_take:
  "n \<le> run_len P lim cs \<Longrightarrow>
   n \<le> length cs \<and> list_all P (take n cs) \<and> (\<forall>b. lim = Some b \<longrightarrow> n \<le> b)"
proof (induction cs arbitrary: n lim)
  case Nil
  then show ?case by simp
next
  case (Cons c cs)
  show ?case
  proof (cases n)
    case 0
    then show ?thesis by simp
  next
    case (Suc n')
    with Cons.prems have go: "\<not> (lim = Some 0 \<or> \<not> P c)"
      and le: "n' \<le> run_len P (map_option (\<lambda>n. n - 1) lim) cs"
      by (auto split: if_splits)
    from Cons.IH [OF le] go Suc show ?thesis
      by (cases lim) auto
  qed
qed

lemma advance_drop: "n \<le> length cs \<Longrightarrow> \<exists>p'. advance n (p, cs, i) = (p', drop n cs, i + n)"
proof (induction n arbitrary: p cs i)
  case 0
  then show ?case by simp
next
  case (Suc n)
  then obtain c cs' where cs: "cs = c # cs'"
    by (cases cs) auto
  with Suc.prems have "n \<le> length cs'" by simp
  from Suc.IH [OF this, of "Some c" "Suc i"] show ?case
    unfolding cs by simp
qed

lemma rmatch_sound:
  "rmatch r (p, cs, i) k = Some e \<Longrightarrow>
   \<exists>n p'. n \<le> length cs \<and> take n cs \<in> lang r \<and> k (p', drop n cs, i + n) = Some e"
proof (induction r arbitrary: p cs i k)
  case Bnd
  then have "k (p, cs, i) = Some e"
    by (simp split: if_splits)
  then show ?case
    by (intro exI [of _ 0] exI [of _ p]) simp
next
  case (Rep P m lim)
  then obtain n where n: "n \<in> set (rev [m ..< Suc (run_len P lim cs)])"
    and kn: "k (advance n (p, cs, i)) = Some e"
    using first_some_Some by fastforce
  from n have mn: "m \<le> n" and "n \<le> run_len P lim cs"
    by auto
  from run_len_take [OF this(2)]
  have len: "n \<le> length cs" and all: "list_all P (take n cs)"
    and lim: "\<forall>b. lim = Some b \<longrightarrow> n \<le> b"
    by auto
  from advance_drop [OF len, of p i] obtain p' where "advance n (p, cs, i) = (p', drop n cs, i + n)"
    by blast
  with kn have "k (p', drop n cs, i + n) = Some e"
    by simp
  moreover have "take n cs \<in> lang (Rep P m lim)"
    using mn len all lim by (auto split: option.splits)
  ultimately show ?case
    using len by blast
next
  case (Opt r)
  show ?case
  proof (cases "rmatch r (p, cs, i) k")
    case None
    with Opt.prems have "k (p, cs, i) = Some e"
      by simp
    then show ?thesis
      by (intro exI [of _ 0] exI [of _ p]) simp
  next
    case (Some e')
    with Opt.prems have "rmatch r (p, cs, i) k = Some e"
      by simp
    from Opt.IH [OF this] show ?thesis
      by auto
  qed
next
  case (Cat a b)
  then have "rmatch a (p, cs, i) (\<lambda>st'. rmatch b st' k) = Some e"
    by simp
  from Cat.IH(1) [OF this] obtain n1 p1 where n1: "n1 \<le> length cs" and u: "take n1 cs \<in> lang a"
    and rest: "rmatch b (p1, drop n1 cs, i + n1) k = Some e"
    by blast
  from Cat.IH(2) [OF rest] obtain n2 p2 where n2: "n2 \<le> length (drop n1 cs)"
    and v: "take n2 (drop n1 cs) \<in> lang b"
    and fin: "k (p2, drop n2 (drop n1 cs), i + n1 + n2) = Some e"
    by blast
  have "take (n1 + n2) cs = take n1 cs @ take n2 (drop n1 cs)"
    by (simp add: take_add)
  with u v have "take (n1 + n2) cs \<in> lang (Cat a b)"
    by auto
  moreover have "k (p2, drop (n1 + n2) cs, i + (n1 + n2)) = Some e"
    using fin by (simp add: ac_simps)
  moreover have "n1 + n2 \<le> length cs"
    using n1 n2 by simp
  ultimately show ?case
    by blast
next
  case Eps
  then have "k (p, cs, i) = Some e"
    by simp
  then show ?case
    by (intro exI [of _ 0] exI [of _ p]) simp
qed

lemma match_at_sound:
  "match_at r (p, cs, i) = Some e \<Longrightarrow> \<exists>n. n \<le> length cs \<and> e = i + n \<and> take n cs \<in> lang r"
  unfolding match_at_def using rmatch_sound [of r p cs i "\<lambda>(p, cs, i). Some i" e] by auto

lemma scan_sound:
  "(a, b) \<in> set (scan r p cs i skip) \<Longrightarrow>
   i \<le> a \<and> a \<le> b \<and> take (b - a) (drop (a - i) cs) \<in> lang r"
proof (induction cs arbitrary: p i skip)
  case Nil
  then have "match_at r (p, [], i) = Some b" and "a = i"
    by (auto split: if_splits option.splits)
  with match_at_sound [of r p "[]" i b] show ?case
    by auto
next
  case (Cons c cs)
  have "(match_at r (p, c # cs, i) = Some b \<and> a = i)
      \<or> (\<exists>skip'. (a, b) \<in> set (scan r (Some c) cs (Suc i) skip'))"
    using Cons.prems by (auto split: if_splits option.splits)
  then show ?case
  proof (elim disjE conjE exE)
    assume here: "match_at r (p, c # cs, i) = Some b" "a = i"
    from match_at_sound [OF here(1)] here(2) show ?thesis
      by auto
  next
    fix skip'
    assume later: "(a, b) \<in> set (scan r (Some c) cs (Suc i) skip')"
    from Cons.IH [OF later] have "Suc i \<le> a" and "a \<le> b"
      and "take (b - a) (drop (a - Suc i) cs) \<in> lang r"
      by auto
    moreover from \<open>Suc i \<le> a\<close> have "a - i = Suc (a - Suc i)"
      by simp
    then have "drop (a - i) (c # cs) = drop (a - Suc i) cs"
      by simp
    ultimately show ?thesis
      by simp
  qed
qed

lemma finditer_sound: "m \<in> set (finditer r s) \<Longrightarrow> substring s m \<in> lang r"
  using scan_sound [of "fst m" "snd m" r None s 0 0]
  by (simp add: finditer_def substring_def)

lemma plain_lang: "plain r \<Longrightarrow> w \<in> lang r \<Longrightarrow> list_all phone_char w"
proof (induction r arbitrary: w)
  case (Rep P m lim)
  then show ?case by (auto simp: list_all_iff)
qed auto

lemma plus_first:
  assumes "plain x" and "plain y"
    and "w \<in> lang (Cat Bnd (Cat (Opt (Cat (opt_of ''+'') x)) y))"
  shows "list_all phone_char w \<or> (\<exists>v. w = CHR ''+'' # v \<and> list_all phone_char v)"
proof -
  from assms(3) obtain u v where w: "w = u @ v" and u: "u = [] \<or> u \<in> lang (Cat (opt_of ''+'') x)"
    and v: "v \<in> lang y"
    by auto
  have pv: "list_all phone_char v"
    using plain_lang [OF assms(2) v] .
  from u show ?thesis
  proof
    assume "u = []"
    with w pv show ?thesis by simp
  next
    assume "u \<in> lang (Cat (opt_of ''+'') x)"
    then obtain s t where ut: "u = s @ t" and s: "s \<in> lang (opt_of ''+'')" and t: "t \<in> lang x"
      by auto
    have pt: "list_all phone_char t"
      using plain_lang [OF assms(1) t] .
    from s have "s = [] \<or> s = ''+''"
      by (cases s) (auto simp: opt_of_def)
    with w ut pt pv show ?thesis
      by auto
  qed
qed

lemma plain_parts:
  "plain (digits a b)" "plain (opt_of ''-.'')" "plain (opt_of ''('')" "plain (opt_of '')'')"
  by (auto simp: digits_def opt_of_def phone_char_def)

lemma phone_pattern_shape:
  assumes "pattern \<in> set phone_patterns" and "w \<in> lang pattern"
  shows "list_all phone_char w \<or> (\<exists>v. w = CHR ''+'' # v \<and> list_all phone_char v)"
proof -
  have "\<exists>x y. plain x \<and> plain y \<and> pattern = Cat Bnd (Cat (Opt (Cat (opt_of ''+'') x)) y)"
    using assms(1) plain_parts
    by (auto simp: phone_patterns_def phone_us_def phone_groups_def country_code_def cat_def)
  with assms(2) plus_first show ?thesis
    by blast
qed

lemma digit_not_separator: "is_digit_c c \<Longrightarrow> c \<notin> set ''-.()+''"
  by (auto simp: is_digit_c_def less_eq_char_def)

lemma strip_phone_chars:
  "list_all phone_char v \<Longrightarrow> length (strip_separators v) = digit_count v"
proof (induction v)
  case Nil
  show ?case by (simp add: strip_separators_def remove_char_def digit_count_def)
next
  case (Cons c v)
  then have "phone_char c" and ih: "length (strip_separators v) = digit_count v"
    by simp_all
  from this(1) digit_not_separator [of c] ih show ?case
    by (auto simp: strip_separators_def remove_char_def digit_count_def phone_char_def)
qed

lemma stripped_length:
  assumes "list_all phone_char w \<or> (\<exists>v. w = CHR ''+'' # v \<and> list_all phone_char v)"
  shows "length (strip_separators w) = digit_count w + (if startswith w ''+'' then 1 else 0)"
  using assms
proof
  assume all: "list_all phone_char w"
  have "\<not> startswith w ''+''"
  proof
    assume "startswith w ''+''"
    then obtain v where "w = CHR ''+'' # v"
      by (cases w) (auto simp: startswith_def)
    with all show False
      using digit_not_separator [of "CHR ''+''"] by (auto simp: phone_char_def)
  qed
  with strip_phone_chars [OF all] show ?thesis
    by simp
next
  assume "\<exists>v. w = CHR ''+'' # v \<and> list_all phone_char v"
  then obtain v where w: "w = CHR ''+'' # v" and all: "list_all phone_char v"
    by blast
  have plus: "\<not> is_digit_c CHR ''+''"
    using digit_not_separator [of "CHR ''+''"] by auto
  have "strip_separators w = CHR ''+'' # strip_separators v"
    unfolding w by (simp add: strip_separators_def remove_char_def)
  moreover have "digit_count w = digit_count v"
    unfolding w using plus by (simp add: digit_count_def)
  moreover have "startswith w ''+''"
    unfolding w by (simp add: startswith_def)
  ultimately show ?thesis
    using strip_phone_chars [OF all] by simp
qed

lemma phone_example: "list_ex (\<lambda>e. digit_count (strip_separators (word e)) = 11)
         (detect_phone ''Call +1-555-123-4567 now'')"
  by code_simp

lemma phone_12: "detect_phone ''12'' = []"
  by code_simp

text \<open>
  C6, as the code has it. A match of one of the phone patterns becomes a \<open>PHONE\<close> entity
  exactly if what is left of it after removing \<open>-\<close>, \<open>.\<close>, \<open>(\<close> and \<open>)\<close> has at least 6
  characters; what is left of a match are its digits and, when the match begins with
  \<open>+\<close>, that \<open>+\<close>, so the length tested is the number of digits, plus one for such a
  match. The text \<open>Call +1-555-123-4567 now\<close> gives an entity with 11 digits, the text
  \<open>12\<close> gives none.
\<close>

theorem phone_accepted_by_stripped_length:
  "(e \<in> set (detect_phone text) \<longleftrightarrow>
      (\<exists>pattern \<in> set phone_patterns. \<exists>m \<in> set (finditer pattern text).
          e = phone_entity text m \<and> 6 \<le> length (strip_separators (substring text m))))
   \<and> (\<forall>pattern \<in> set phone_patterns. \<forall>m \<in> set (finditer pattern text).
        length (strip_separators (substring text m))
          = digit_count (substring text m) + (if startswith (substring text m) ''+'' then 1 else 0))
   \<and> list_ex (\<lambda>e. digit_count (strip_separators (word e)) = 11)
         (detect_phone ''Call +1-555-123-4567 now'')
   \<and> detect_phone ''12'' = []"
proof -
  have accept: "e \<in> set (detect_phone text) \<longleftrightarrow>
      (\<exists>pattern \<in> set phone_patterns. \<exists>m \<in> set (finditer pattern text).
          e = phone_entity text m \<and> 6 \<le> length (strip_separators (substring text m)))"
    by (auto simp: detect_phone_def)
  have count: "\<forall>pattern \<in> set phone_patterns. \<forall>m \<in> set (finditer pattern text).
        length (strip_separators (substring text m))
          = digit_count (substring text m) + (if startswith (substring text m) ''+'' then 1 else 0)"
    using finditer_sound phone_pattern_shape stripped_length by blast
  from accept count phone_example phone_12 show ?thesis
    by blast
qed

theorem phone_accepted_by_stripped_length_witness:
  "phone_groups 1 4 \<in> set phone_patterns
   \<and> (1, 7) \<in> set (finditer (phone_groups 1 4) ''a+12345'')
   \<and> substring ''a+12345'' (1, 7) = ''+12345''
   \<and> length (strip_separators ''+12345'') = digit_count ''+12345'' + 1
   \<and> phone_entity ''a+12345'' (1, 7) \<in> set (detect_phone ''a+12345'')"
proof -
  let ?t = "''a+12345''"
  have p: "phone_groups 1 4 \<in> set phone_patterns"
    by (simp add: phone_patterns_def)
  have m: "(1, 7) \<in> set (finditer (phone_groups 1 4) ?t)"
    by code_simp
  have s: "substring ?t (1, 7) = ''+12345''"
    by code_simp
  have st: "startswith ''+12345'' ''+''"
    by code_simp
  have l: "6 \<le> length (strip_separators (substring ?t (1, 7)))"
    by code_simp
  note inst = phone_accepted_by_stripped_length [of "phone_entity ?t (1, 7)" ?t]
  have "phone_entity ?t (1, 7) \<in> set (detect_phone ?t)"
    using inst p m l by blast
  moreover have "length (strip_separators (substring ?t (1, 7)))
      = digit_count (substring ?t (1, 7)) + (if startswith (substring ?t (1, 7)) ''+'' then 1 else 0)"
    using inst p m by blast
  ultimately show ?thesis
    using p m s st by simp
qed

text \<open>
  C6 as stated fails where a match begins with \<open>+\<close>: in \<open>a+12345\<close> the match \<open>+12345\<close> is
  accepted, with 6 characters left after stripping and 5 digits among them.
\<close>

theorem plus_sign_counts:
  "map (\<lambda>e. (start e, endpos e, word e)) (detect_phone ''a+12345'')
     = [(1, 7, ''+12345''), (1, 7, ''+12345''), (1, 7, ''+12345'')]
   \<and> length (strip_separators ''+12345'') = 6
   \<and> digit_count (strip_separators ''+12345'') = 5"
  by code_simp

section \<open>Lengths under preprocessing\<close>

lemma length_join:
  "length (join sep (x # xs)) = length x + (if xs = [] then 0 else length sep + length (join sep xs))"
  by (cases xs) auto

lemma split_on_not_Nil: "split_on c s \<noteq> []"
  by (induction s) (auto split: list.splits)

lemma join_Cons_Cons: "join sep ((a # l) # ls) = a # join sep (l # ls)"
  by (cases ls) auto

lemma join_split_on: "join [c] (split_on c s) = s"
proof (induction s)
  case Nil
  show ?case by simp
next
  case (Cons a s)
  obtain l ls where sp: "split_on c s = l # ls"
    using split_on_not_Nil [of c s] by (cases "split_on c s") auto
  show ?case
    using Cons.IH by (auto simp: sp join_Cons_Cons)
qed

lemma set_split_on: "l \<in> set (split_on c s) \<Longrightarrow> set l \<subseteq> set s"
proof (induction s arbitrary: l)
  case Nil
  then show ?case by simp
next
  case (Cons a s)
  obtain l' ls where sp: "split_on c s = l' # ls"
    using split_on_not_Nil [of c s] by (cases "split_on c s") auto
  from Cons.IH [of l'] Cons.IH [of l] Cons.prems show ?case
    by (auto simp: sp split: if_splits)
qed

lemma set_split_ws_from:
  "w \<in> set (split_ws_from cur cs) \<Longrightarrow> set w \<subseteq> set cur \<union> set cs"
proof (induction cs arbitrary: cur)
  case Nil
  then show ?case by (auto split: if_splits)
next
  case (Cons c cs)
  from Cons.prems Cons.IH [of "[]"] Cons.IH [of "cur @ [c]"] show ?case
    by (auto split: if_splits)
qed

lemma length_join_map_le:
  "\<forall>l \<in> set ls. length (g l) \<le> length l \<Longrightarrow>
   length (join sep (map g ls)) \<le> length (join sep ls)"
proof (induction ls)
  case Nil
  show ?case by simp
next
  case (Cons l ls)
  then have "length (join sep (map g ls)) \<le> length (join sep ls)" and "length (g l) \<le> length l"
    by auto
  then show ?case
    by (simp add: length_join del: join.simps)
qed

lemma length_join_map_less:
  "\<forall>l \<in> set ls. length (g l) \<le> length l \<Longrightarrow> \<exists>l \<in> set ls. length (g l) < length l \<Longrightarrow>
   length (join sep (map g ls)) < length (join sep ls)"
proof (induction ls)
  case Nil
  then show ?case by simp
next
  case (Cons l ls)
  have le: "length (join sep (map g ls)) \<le> length (join sep ls)" and hd: "length (g l) \<le> length l"
    using Cons.prems(1) length_join_map_le [of ls g sep] by auto
  show ?case
  proof (cases "length (g l) < length l")
    case True
    with le show ?thesis
      by (simp add: length_join del: join.simps)
  next
    case False
    with Cons.prems have "\<exists>l \<in> set ls. length (g l) < length l"
      by auto
    with Cons have "length (join sep (map g ls)) < length (join sep ls)"
      by auto
    with hd show ?thesis
      by (cases ls) (simp_all add: length_join del: join.simps)
  qed
qed

lemma length_join_map_eq:
  "\<forall>l \<in> set ls. length (g l) = length l \<Longrightarrow>
   length (join sep (map g ls)) = length (join sep ls)"
  by (induction ls) (simp_all add: length_join del: join.simps)

lemma ascii_not_sharp_s: "is_ascii_c c \<Longrightarrow> c \<noteq> CHR 0xDF"
  by (auto simp: is_ascii_c_def less_eq_char_def)

lemma length_title_s: "c \<noteq> CHR 0xDF \<Longrightarrow> length (title_s c) = 1"
  by (simp add: title_s_def)

lemma length_title_from: "CHR 0xDF \<notin> set w \<Longrightarrow> length (title_from prev w) = length w"
  by (induction w arbitrary: prev) (auto simp: length_title_s)

lemma length_preprocess_word: "CHR 0xDF \<notin> set w \<Longrightarrow> length (preprocess_word w) = length w"
  by (cases w)
    (auto simp: preprocess_word_def title_def length_title_from capitalize_def length_title_s)

lemma length_preprocess_line:
  assumes "CHR 0xDF \<notin> set line"
  shows "length (preprocess_line line) = length (join '' '' (split_ws line))"
proof -
  have "\<forall>w \<in> set (split_ws line). length (preprocess_word w) = length w"
    using set_split_ws_from [of _ "[]" line] assms
    by (auto simp: split_ws_def intro!: length_preprocess_word)
  then show ?thesis
    unfolding preprocess_line_def by (rule length_join_map_eq)
qed

lemma split_ws_len_le:
  "length (join '' '' (split_ws_from cur cs)) \<le> length cur + length cs"
proof (induction cs arbitrary: cur)
  case Nil
  show ?case by simp
next
  case (Cons c cs)
  show ?case
    using Cons.IH [of "[]"] Cons.IH [of "cur @ [c]"]
    by (simp add: length_join del: join.simps)
qed

lemma split_ws_len_less:
  "(if cur = [] then untidy cs else (cs \<noteq> [] \<and> is_space_c (last cs)) \<or> double_space cs) \<Longrightarrow>
   length (join '' '' (split_ws_from cur cs)) < length cur + length cs"
proof (induction cs arbitrary: cur)
  case Nil
  then show ?case by (simp add: untidy_def split: if_splits)
next
  case (Cons c cs)
  show ?case
  proof (cases "is_space_c c")
    case sp: True
    show ?thesis
    proof (cases "cur = []")
      case True
      with sp show ?thesis
        using split_ws_len_le [of "[]" cs] by simp
    next
      case False
      show ?thesis
      proof (cases "split_ws_from [] cs = []")
        case True
        with sp False show ?thesis by simp
      next
        case rest: False
        then obtain d ds where cs: "cs = d # ds"
          by (cases cs) auto
        from Cons.prems False have "is_space_c (last (c # cs)) \<or> double_space (c # cs)"
          by simp
        then have "untidy cs"
          unfolding cs untidy_def by auto
        then have "length (join '' '' (split_ws_from [] cs)) < length cs"
          using Cons.IH [of "[]"] by simp
        with sp False rest show ?thesis
          by (simp add: length_join del: join.simps)
      qed
    qed
  next
    case nsp: False
    from Cons.prems nsp have "(cs \<noteq> [] \<and> is_space_c (last cs)) \<or> double_space cs"
      by (cases cs) (auto simp: untidy_def split: if_splits)
    then have "length (join '' '' (split_ws_from (cur @ [c]) cs)) < length (cur @ [c]) + length cs"
      using Cons.IH [of "cur @ [c]"] by simp
    with nsp show ?thesis by simp
  qed
qed

lemma preprocess_line_le:
  "CHR 0xDF \<notin> set line \<Longrightarrow> length (preprocess_line line) \<le> length line"
  using split_ws_len_le [of "[]" line] by (simp add: length_preprocess_line split_ws_def)

lemma preprocess_line_less:
  "CHR 0xDF \<notin> set line \<Longrightarrow> untidy line \<Longrightarrow> length (preprocess_line line) < length line"
  using split_ws_len_less [of "[]" line] by (simp add: length_preprocess_line split_ws_def)

lemma preprocess_example:
  "preprocess_text ''Hi  Bob'' = ''Hi Bob'' \<and> py_slice ''Hi Bob'' 3 6 = ''Bob''
   \<and> py_slice ''Hi  Bob'' 3 6 = '' Bo''"
  by code_simp

text \<open>
  C10, as the code has it. On ASCII text, where the case normalisation keeps the length
  of every token, preprocessing never lengthens the text and shortens it as soon as one
  line starts or ends with whitespace or has two whitespace characters in a row. Offsets
  into the preprocessed text are then not offsets into the original: in \<open>Hi  Bob\<close> the
  word \<open>Bob\<close> is at 3..6 of the preprocessed text, where the original has \<open> Bo\<close>.
\<close>

theorem preprocess_shortens_ascii:
  assumes "list_all is_ascii_c text"
  shows "length (preprocess_text text) \<le> length text
   \<and> ((\<exists>line \<in> set (split_on (CHR 0x0A) text). untidy line) \<longrightarrow>
        length (preprocess_text text) < length text)
   \<and> preprocess_text ''Hi  Bob'' = ''Hi Bob'' \<and> py_slice ''Hi Bob'' 3 6 = ''Bob''
   \<and> py_slice ''Hi  Bob'' 3 6 = '' Bo''"
proof -
  let ?lines = "split_on (CHR 0x0A) text"
  have len: "length text = length (join [CHR 0x0A] ?lines)"
    by (simp add: join_split_on)
  have "CHR 0xDF \<notin> set text"
    using assms ascii_not_sharp_s by (auto simp: list_all_iff)
  then have clean: "\<forall>line \<in> set ?lines. CHR 0xDF \<notin> set line"
    using set_split_on by fastforce
  then have all_le: "\<forall>line \<in> set ?lines. length (preprocess_line line) \<le> length line"
    using preprocess_line_le by blast
  have le: "length (preprocess_text text) \<le> length text"
    unfolding len preprocess_text_def using all_le by (rule length_join_map_le)
  have less: "length (preprocess_text text) < length text" if "\<exists>line \<in> set ?lines. untidy line"
  proof -
    from that clean have "\<exists>line \<in> set ?lines. length (preprocess_line line) < length line"
      using preprocess_line_less by blast
    with all_le show ?thesis
      unfolding len preprocess_text_def by (rule length_join_map_less)
  qed
  show ?thesis
    using le less preprocess_example by blast
qed

theorem preprocess_shortens_ascii_witness:
  "list_all is_ascii_c ''Hi  Bob'' \<and> untidy ''Hi  Bob''
   \<and> ''Hi  Bob'' \<in> set (split_on (CHR 0x0A) ''Hi  Bob'')
   \<and> length (preprocess_text ''Hi  Bob'') < length ''Hi  Bob''"
proof -
  have a: "list_all is_ascii_c ''Hi  Bob''"
    by code_simp
  have u: "untidy ''Hi  Bob''"
    by code_simp
  have s: "split_on (CHR 0x0A) ''Hi  Bob'' = [''Hi  Bob'']"
    by code_simp
  have "\<exists>line \<in> set (split_on (CHR 0x0A) ''Hi  Bob''). untidy line"
    using u s by simp
  then show ?thesis
    using preprocess_shortens_ascii [OF a] a u s by simp
qed

text \<open>
  C10 as stated fails. A token can grow under \<open>capitalize\<close>: the line made of the sharp s,
  \<open>ab\<close> and a trailing space becomes \<open>Ssab\<close>, as long as the line was.
\<close>

theorem longer_token_keeps_length:
  "untidy [CHR 0xDF, CHR ''a'', CHR ''b'', CHR '' '']
   \<and> split_on (CHR 0x0A) [CHR 0xDF, CHR ''a'', CHR ''b'', CHR '' '']
        = [[CHR 0xDF, CHR ''a'', CHR ''b'', CHR '' '']]
   \<and> preprocess_text [CHR 0xDF, CHR ''a'', CHR ''b'', CHR '' ''] = ''Ssab''
   \<and> length (preprocess_text [CHR 0xDF, CHR ''a'', CHR ''b'', CHR '' ''])
        = length [CHR 0xDF, CHR ''a'', CHR ''b'', CHR '' '']"
  by code_simp

section \<open>One turn of the rewriting loop\<close>

declare expand_start.simps [simp del] expand_end.simps [simp del]

lemma py_index_nonneg:
  "0 \<le> i \<Longrightarrow> py_index t i = (if i < int (length t) then Inr (t ! nat i) else Inl IndexError)"
  by (simp add: py_index_def Let_def)

lemma expand_start_props:
  "expand_start t s0 = Inr s \<Longrightarrow> 0 \<le> s0 \<Longrightarrow>
   0 \<le> s \<and> s \<le> s0 \<and> (0 < s0 \<longrightarrow> s0 \<le> int (length t))
   \<and> (\<forall>k. s \<le> k \<and> k < s0 \<longrightarrow> is_alnum_c (t ! nat k))
   \<and> (s = 0 \<or> \<not> is_alnum_c (t ! nat (s - 1)))"
proof (induction t s0 rule: expand_start.induct)
  case (1 t s0)
  show ?case
  proof (cases "0 < s0")
    case False
    with "1.prems" show ?thesis
      by (auto simp: expand_start.simps [of t s0])
  next
    case pos: True
    from "1.prems"(1) pos
    have unf: "(case py_index t (s0 - 1) of Inl err \<Rightarrow> Inl err
                | Inr c \<Rightarrow> if is_alnum_c c then expand_start t (s0 - 1) else Inr s0) = Inr s"
      by (simp add: expand_start.simps [of t s0])
    then obtain c where c: "py_index t (s0 - 1) = Inr c"
      by (cases "py_index t (s0 - 1)") auto
    with pos have lt: "s0 - 1 < int (length t)" and cv: "c = t ! nat (s0 - 1)"
      by (auto simp: py_index_nonneg split: if_splits)
    show ?thesis
    proof (cases "is_alnum_c c")
      case True
      with unf c have rec: "expand_start t (s0 - 1) = Inr s"
        by simp
      from "1.IH" [OF pos c True rec] pos
      have ih: "0 \<le> s" "s \<le> s0 - 1" "\<forall>k. s \<le> k \<and> k < s0 - 1 \<longrightarrow> is_alnum_c (t ! nat k)"
        "s = 0 \<or> \<not> is_alnum_c (t ! nat (s - 1))"
        by simp_all
      have "is_alnum_c (t ! nat k)" if "s \<le> k \<and> k < s0" for k
      proof -
        from that consider "k < s0 - 1" | "k = s0 - 1" by linarith
        then show ?thesis using ih(3) that True cv by cases auto
      qed
      with ih lt show ?thesis by auto
    next
      case False
      with unf c have "s = s0" by simp
      with False cv lt pos show ?thesis by auto
    qed
  qed
qed

lemma expand_end_props:
  "expand_end t e0 = Inr e \<Longrightarrow> 0 \<le> e0 \<Longrightarrow>
   e0 \<le> e
   \<and> (\<forall>k. e0 \<le> k \<and> k < e \<longrightarrow> k < int (length t) \<and> is_alnum_c (t ! nat k))
   \<and> (e < int (length t) \<longrightarrow> \<not> is_alnum_c (t ! nat e))"
proof (induction t e0 rule: expand_end.induct)
  case (1 t e0)
  show ?case
  proof (cases "e0 < int (length t)")
    case False
    with "1.prems" show ?thesis
      by (auto simp: expand_end.simps [of t e0])
  next
    case inside: True
    with "1.prems"(2) have c: "py_index t e0 = Inr (t ! nat e0)"
      by (simp add: py_index_nonneg)
    show ?thesis
    proof (cases "is_alnum_c (t ! nat e0)")
      case True
      with "1.prems"(1) inside c have rec: "expand_end t (e0 + 1) = Inr e"
        by (simp add: expand_end.simps [of t e0])
      from "1.IH" [OF inside c True rec] "1.prems"(2)
      have ih: "e0 + 1 \<le> e"
        "\<forall>k. e0 + 1 \<le> k \<and> k < e \<longrightarrow> k < int (length t) \<and> is_alnum_c (t ! nat k)"
        "e < int (length t) \<longrightarrow> \<not> is_alnum_c (t ! nat e)"
        by simp_all
      have "k < int (length t) \<and> is_alnum_c (t ! nat k)" if "e0 \<le> k \<and> k < e" for k
      proof -
        from that consider "e0 + 1 \<le> k" | "k = e0" by linarith
        then show ?thesis using ih(2) that True inside by cases auto
      qed
      with ih show ?thesis by auto
    next
      case False
      with "1.prems"(1) inside c have "e = e0"
        by (simp add: expand_end.simps [of t e0])
      with False inside show ?thesis by auto
    qed
  qed
qed

lemma slice_bound_inside: "0 \<le> i \<Longrightarrow> i \<le> int (length t) \<Longrightarrow> slice_bound t i = nat i"
  by (simp add: slice_bound_def Let_def)

lemma rewrite_step_nonneg:
  assumes "0 \<le> start e" and "0 \<le> endpos e" and "rewrite_step t e = Inr (t', made)"
  shows "\<exists>s en. expand_start t (start e) = Inr s \<and> expand_end t (endpos e) = Inr en
      \<and> 0 \<le> s \<and> s \<le> int (length t) \<and> en \<le> int (length t)
      \<and> made = (if isalnum (take (nat en - nat s) (drop (nat s) t)) \<and> 1 < nat en - nat s
                 then Some (s, en) else None)
      \<and> t' = (if made = None then t else take (nat s) t @ replacement_of e @ drop (nat en) t)"
proof -
  from assms(3) obtain s where s: "expand_start t (start e) = Inr s"
    by (cases "expand_start t (start e)") (auto simp: rewrite_step_def)
  from assms(3) s obtain en where en: "expand_end t (endpos e) = Inr en"
    by (cases "expand_end t (endpos e)") (auto simp: rewrite_step_def)
  note ps = expand_start_props [OF s assms(1)]
  note pe = expand_end_props [OF en assms(2)]
  from ps have s0: "0 \<le> s" and sl: "s \<le> int (length t)"
    by auto
  have left: "left_ok t s = Inr True"
    using ps by (auto simp: left_ok_def py_index_nonneg)
  have en0: "0 \<le> en"
    using pe assms(2) by auto
  have enl: "en \<le> int (length t)"
  proof (rule ccontr)
    assume "\<not> en \<le> int (length t)"
    with en0 have "right_ok t en = Inl IndexError"
      by (simp add: right_ok_def py_index_nonneg)
    with assms(3) s en left show False
      by (simp add: rewrite_step_def)
  qed
  have right: "right_ok t en = Inr True"
    using pe en0 enl by (auto simp: right_ok_def py_index_nonneg)
  have sl_s: "slice_bound t s = nat s" and sl_en: "slice_bound t en = nat en"
    using s0 sl en0 enl by (simp_all add: slice_bound_inside)
  have len: "length (take (nat en - nat s) (drop (nat s) t)) = nat en - nat s"
    using enl en0 by auto
  have step: "rewrite_step t e =
      (if isalnum (take (nat en - nat s) (drop (nat s) t)) \<and> 1 < nat en - nat s
       then Inr (take (nat s) t @ replacement_of e @ drop (nat en) t, Some (s, en))
       else Inr (t, None))"
    by (simp add: rewrite_step_def s en left right py_slice_def py_upto_def py_from_def
        sl_s sl_en Let_def len del: length_take length_drop)
  from assms(3) have "made = (if isalnum (take (nat en - nat s) (drop (nat s) t)) \<and> 1 < nat en - nat s
                 then Some (s, en) else None)"
    and "t' = (if made = None then t else take (nat s) t @ replacement_of e @ drop (nat en) t)"
    unfolding step by (auto split: if_splits)
  with s en s0 sl enl show ?thesis
    by blast
qed

lemma run_iff:
  assumes "0 \<le> s" and "en \<le> int (length t)"
    and "s = 0 \<or> \<not> is_alnum_c (t ! nat (s - 1))"
    and "en < int (length t) \<longrightarrow> \<not> is_alnum_c (t ! nat en)"
  shows "(isalnum (take (nat en - nat s) (drop (nat s) t)) \<and> 1 < nat en - nat s)
         \<longleftrightarrow> (maximal_run t s en \<and> 1 < en - s)"
proof -
  have n: "nat en - nat s = nat (en - s)"
    using assms(1) by (simp add: nat_diff_distrib')
  have "take (nat (en - s)) (drop (nat s) t) \<noteq> []" if "1 < en - s"
    using that assms(1,2) by auto
  then show ?thesis
    unfolding n maximal_run_def isalnum_def using assms by auto
qed

lemma sort_entities_descending: "sorted_wrt (\<lambda>a b. start b \<le> start a) (sort_entities es)"
proof -
  have "sorted (map (\<lambda>e. - start e) (sort_entities es))"
    unfolding sort_entities_def by (rule sorted_sort_key)
  then show ?thesis
    by (simp add: sorted_map)
qed

text \<open>
  A turn of the loop that returns, for an entity with non-negative offsets: \<open>start\<close> has
  moved left and \<open>end\<close> right over alphanumeric characters only, each as far as possible;
  the replacement is made exactly when the slice between the two is a maximal
  alphanumeric run of more than one character, and then that whole slice is replaced;
  otherwise the text stays as it is. The entities come in descending order of \<open>start\<close>.
\<close>

lemma whole_word_rewrite:
  assumes "0 \<le> start e" and "0 \<le> endpos e" and "rewrite_step t e = Inr (t', made)"
  shows "sorted_wrt (\<lambda>a b. start b \<le> start a) (sort_entities es)
    \<and> (\<exists>s en. expand_start t (start e) = Inr s \<and> expand_end t (endpos e) = Inr en
        \<and> s \<le> start e \<and> endpos e \<le> en
        \<and> (\<forall>k. s \<le> k \<and> k < start e \<longrightarrow> is_alnum_c (t ! nat k))
        \<and> (s = 0 \<or> \<not> is_alnum_c (t ! nat (s - 1)))
        \<and> (\<forall>k. endpos e \<le> k \<and> k < en \<longrightarrow> is_alnum_c (t ! nat k))
        \<and> (en = int (length t) \<or> \<not> is_alnum_c (t ! nat en))
        \<and> (made \<noteq> None \<longleftrightarrow> maximal_run t s en \<and> 1 < en - s)
        \<and> (made \<noteq> None \<longrightarrow>
             made = Some (s, en) \<and> t' = take (nat s) t @ replacement_of e @ drop (nat en) t)
        \<and> (made = None \<longrightarrow> t' = t))"
proof -
  from rewrite_step_nonneg [OF assms] obtain s en where
    s: "expand_start t (start e) = Inr s" and en: "expand_end t (endpos e) = Inr en"
    and b: "0 \<le> s" "s \<le> int (length t)" "en \<le> int (length t)"
    and made: "made = (if isalnum (take (nat en - nat s) (drop (nat s) t)) \<and> 1 < nat en - nat s
                 then Some (s, en) else None)"
    and t': "t' = (if made = None then t else take (nat s) t @ replacement_of e @ drop (nat en) t)"
    by blast
  note ps = expand_start_props [OF s assms(1)]
  note pe = expand_end_props [OF en assms(2)]
  have e1: "s \<le> start e" "\<forall>k. s \<le> k \<and> k < start e \<longrightarrow> is_alnum_c (t ! nat k)"
    using ps by blast+
  have bl: "s = 0 \<or> \<not> is_alnum_c (t ! nat (s - 1))"
    using ps by blast
  have e2: "endpos e \<le> en" "\<forall>k. endpos e \<le> k \<and> k < en \<longrightarrow> is_alnum_c (t ! nat k)"
    using pe by blast+
  have br: "en < int (length t) \<longrightarrow> \<not> is_alnum_c (t ! nat en)"
    using pe by blast
  have br': "en = int (length t) \<or> \<not> is_alnum_c (t ! nat en)"
    using br b(3) by linarith
  have "(made \<noteq> None) = (isalnum (take (nat en - nat s) (drop (nat s) t)) \<and> 1 < nat en - nat s)"
    by (simp add: made)
  then have iff: "(made \<noteq> None) = (maximal_run t s en \<and> 1 < en - s)"
    by (simp only: run_iff [OF b(1) b(3) bl br])
  have m1: "made \<noteq> None \<longrightarrow>
      made = Some (s, en) \<and> t' = take (nat s) t @ replacement_of e @ drop (nat en) t"
    using t' by (simp add: made)
  have m2: "made = None \<longrightarrow> t' = t"
    using t' by simp
  have main: "expand_start t (start e) = Inr s \<and> expand_end t (endpos e) = Inr en
        \<and> s \<le> start e \<and> endpos e \<le> en
        \<and> (\<forall>k. s \<le> k \<and> k < start e \<longrightarrow> is_alnum_c (t ! nat k))
        \<and> (s = 0 \<or> \<not> is_alnum_c (t ! nat (s - 1)))
        \<and> (\<forall>k. endpos e \<le> k \<and> k < en \<longrightarrow> is_alnum_c (t ! nat k))
        \<and> (en = int (length t) \<or> \<not> is_alnum_c (t ! nat en))
        \<and> (made \<noteq> None \<longleftrightarrow> maximal_run t s en \<and> 1 < en - s)
        \<and> (made \<noteq> None \<longrightarrow>
             made = Some (s, en) \<and> t' = take (nat s) t @ replacement_of e @ drop (nat en) t)
        \<and> (made = None \<longrightarrow> t' = t)"
    by (intro conjI) (fact s en e1 bl e2 br' iff m1 m2)+
  show ?thesis
  proof (rule conjI)
    show "sorted_wrt (\<lambda>a b. start b \<le> start a) (sort_entities es)"
      by (rule sort_entities_descending)
    show "\<exists>s en. expand_start t (start e) = Inr s \<and> expand_end t (endpos e) = Inr en
        \<and> s \<le> start e \<and> endpos e \<le> en
        \<and> (\<forall>k. s \<le> k \<and> k < start e \<longrightarrow> is_alnum_c (t ! nat k))
        \<and> (s = 0 \<or> \<not> is_alnum_c (t ! nat (s - 1)))
        \<and> (\<forall>k. endpos e \<le> k \<and> k < en \<longrightarrow> is_alnum_c (t ! nat k))
        \<and> (en = int (length t) \<or> \<not> is_alnum_c (t ! nat en))
        \<and> (made \<noteq> None \<longleftrightarrow> maximal_run t s en \<and> 1 < en - s)
        \<and> (made \<noteq> None \<longrightarrow>
             made = Some (s, en) \<and> t' = take (nat s) t @ replacement_of e @ drop (nat en) t)
        \<and> (made = None \<longrightarrow> t' = t)"
      by (rule exI [of _ s], rule exI [of _ en]) (rule main)
  qed
qed

lemma whole_word_rewrite_example:
  "rewrite_step ''John Smith works''
       \<lparr>entity = ''PER'', start = 6, endpos = 10, word = ''mith'', replacement = Some ''[person]''\<rparr>
     = Inr (''John [person] works'', Some (5, 10))
   \<and> maximal_run ''John Smith works'' 5 10
   \<and> py_slice ''John Smith works'' 6 10 = ''mith''
   \<and> py_slice ''John Smith works'' 5 10 = ''Smith''"
proof -
  let ?e = "\<lparr>entity = ''PER'', start = 6, endpos = 10, word = ''mith'',
             replacement = Some ''[person]''\<rparr>"
  have h: "rewrite_step ''John Smith works'' ?e = Inr (''John [person] works'', Some (5, 10))"
    by code_simp
  have sl: "py_slice ''John Smith works'' 6 10 = ''mith''"
    "py_slice ''John Smith works'' 5 10 = ''Smith''"
    by code_simp+
  have n: "0 \<le> start ?e" "0 \<le> endpos ?e"
    by simp_all
  from whole_word_rewrite [OF n h, of "[]"] obtain s en :: int where
    a: "(Some (5, 10) \<noteq> (None :: (int \<times> int) option)) = (maximal_run ''John Smith works'' s en \<and> 1 < en - s)"
    and b: "Some (5, 10) \<noteq> (None :: (int \<times> int) option) \<longrightarrow> Some (5, 10) = Some (s, en) \<and>
      ''John [person] works'' = take (nat s) ''John Smith works'' @ replacement_of ?e @ drop (nat en) ''John Smith works''"
    by blast
  from b have "s = 5" "en = 10"
    by simp_all
  with a have "maximal_run ''John Smith works'' 5 10"
    by simp
  with h sl show ?thesis
    by simp
qed

section \<open>A span beyond the end of the working text\<close>

text \<open>
  C2. The claim describes what the loop is written to do: a span whose expanded slice is
  not a maximal alphanumeric run is to leave the text as it is. The test of the right
  boundary, \<open>end == len(anonymized_text) or not anonymized_text[end].isalnum()\<close>, misses
  the case of an \<open>end\<close> beyond the end of the working text, which arises once a
  replacement has shortened the text. For the text \<open>5551234567\<close> the phone patterns give
  the span 0..10 four times; the first turn replaces it by \<open>[PHONE]\<close>, and the second
  turn, for the same span, reads the character at offset 10 of a text of 7 characters
  and raises \<open>IndexError\<close>: \<open>anonymize_text\<close> returns no text.
\<close>

theorem rewrite_raises_on_repeated_span:
  "map (\<lambda>e. (start e, endpos e, word e)) (detect_phone ''5551234567'')
     = [(0, 10, ''5551234567''), (0, 10, ''5551234567''), (0, 10, ''5551234567''),
        (0, 10, ''5551234567'')]
   \<and> rewrite_step ''5551234567''
        \<lparr>entity = ''PHONE'', start = 0, endpos = 10, word = ''5551234567'',
         replacement = Some ''[PHONE]''\<rparr> = Inr (''[PHONE]'', Some (0, 10))
   \<and> rewrite_step ''[PHONE]''
        \<lparr>entity = ''PHONE'', start = 0, endpos = 10, word = ''5551234567'',
         replacement = Some ''[PHONE]''\<rparr> = Inl IndexError
   \<and> anonymize_with [] ''5551234567'' = Inl IndexError
   \<and> anonymize_text (\<lambda>t. Body (JList [])) ''5551234567'' [] = (Inl IndexError, [''5551234567''])"
  by code_simp

section \<open>Applied spans\<close>

lemma nth_take_eq: "take M t = take M orig \<Longrightarrow> n < M \<Longrightarrow> t ! n = orig ! n"
  by (metis nth_take)

lemma expand_start_prefix:
  "take M t = take M orig \<Longrightarrow> s0 \<le> int M \<Longrightarrow> M \<le> length t \<Longrightarrow> M \<le> length orig \<Longrightarrow>
   expand_start t s0 = expand_start orig s0"
proof (induction t s0 rule: expand_start.induct)
  case (1 t s0)
  show ?case
  proof (cases "0 < s0")
    case False
    then show ?thesis
      by (simp add: expand_start.simps [of t s0] expand_start.simps [of orig s0])
  next
    case pos: True
    with "1.prems" have lt: "nat (s0 - 1) < M"
      by linarith
    have it: "py_index t (s0 - 1) = Inr (t ! nat (s0 - 1))"
      and io: "py_index orig (s0 - 1) = Inr (orig ! nat (s0 - 1))"
      using pos lt "1.prems"(3,4) by (simp_all add: py_index_nonneg)
    have same: "t ! nat (s0 - 1) = orig ! nat (s0 - 1)"
      using nth_take_eq [OF "1.prems"(1) lt] .
    show ?thesis
    proof (cases "is_alnum_c (t ! nat (s0 - 1))")
      case True
      have "expand_start t (s0 - 1) = expand_start orig (s0 - 1)"
        using "1.IH" [OF pos it True "1.prems"(1) _ "1.prems"(3,4)] "1.prems"(2) by simp
      with True pos it io same show ?thesis
        by (simp add: expand_start.simps [of t s0] expand_start.simps [of orig s0])
    next
      case False
      with pos it io same show ?thesis
        by (simp add: expand_start.simps [of t s0] expand_start.simps [of orig s0])
    qed
  qed
qed

lemma rewrite_all_disjoint:
  assumes "rewrite_all t es = Inr (t'', applied)"
    and "M \<le> length t" and "M \<le> length orig" and "take M t = take M orig"
    and "M < length t \<longrightarrow> \<not> is_alnum_c (t ! M)"
    and "\<forall>e \<in> set es. 0 \<le> start e \<and> start e \<le> int M \<and> 0 \<le> endpos e
           \<and> replacement_of e \<noteq> [] \<and> \<not> is_alnum_c (hd (replacement_of e))"
    and "sorted_wrt (clear_of orig) es"
  shows "(\<forall>a \<in> set applied. 0 \<le> fst (snd a) \<and> fst (snd a) \<le> start (fst a)
            \<and> endpos (fst a) \<le> snd (snd a) \<and> snd (snd a) \<le> int M)
       \<and> sorted_wrt (\<lambda>a b. snd (snd b) \<le> fst (snd a)) applied"
  using assms
proof (induction es arbitrary: t M applied)
  case Nil
  then show ?case by simp
next
  case (Cons e es)
  from Cons.prems(1) obtain t' made where step: "rewrite_step t e = Inr (t', made)"
    by (cases "rewrite_step t e") auto
  from Cons.prems(1) step obtain rest where rest: "rewrite_all t' es = Inr (t'', rest)"
    and app: "applied = (case made of None \<Rightarrow> rest | Some se \<Rightarrow> (e, se) # rest)"
    by (auto split: sum.splits)
  have e_ok: "0 \<le> start e" "start e \<le> int M" "0 \<le> endpos e" "replacement_of e \<noteq> []"
    "\<not> is_alnum_c (hd (replacement_of e))"
    using Cons.prems(6) by auto
  from rewrite_step_nonneg [OF e_ok(1) e_ok(3) step] obtain s en where
    s: "expand_start t (start e) = Inr s" and en: "expand_end t (endpos e) = Inr en"
    and b: "0 \<le> s" "s \<le> int (length t)" "en \<le> int (length t)"
    and made: "made = (if isalnum (take (nat en - nat s) (drop (nat s) t)) \<and> 1 < nat en - nat s
                 then Some (s, en) else None)"
    and t': "t' = (if made = None then t else take (nat s) t @ replacement_of e @ drop (nat en) t)"
    by blast
  note ps = expand_start_props [OF s e_ok(1)]
  note pe = expand_end_props [OF en e_ok(3)]
  have tail_sorted: "sorted_wrt (clear_of orig) es"
    using Cons.prems(7) by simp
  have clear: "\<forall>e' \<in> set es. clear_of orig e e'"
    using Cons.prems(7) by simp
  have tail_ok: "\<forall>e \<in> set es. 0 \<le> start e \<and> start e \<le> int M \<and> 0 \<le> endpos e
           \<and> replacement_of e \<noteq> [] \<and> \<not> is_alnum_c (hd (replacement_of e))"
    using Cons.prems(6) by simp
  show ?case
  proof (cases made)
    case None
    then have "t' = t" and "applied = rest"
      using t' app by simp_all
    with Cons.IH [OF _ Cons.prems(2,3,4,5) tail_ok tail_sorted] rest show ?thesis
      by simp
  next
    case (Some se)
    then have se: "se = (s, en)" and run: "isalnum (take (nat en - nat s) (drop (nat s) t))"
      and long: "1 < nat en - nat s"
      using made by (auto split: if_splits)
    have t'_eq: "t' = take (nat s) t @ replacement_of e @ drop (nat en) t"
      using t' Some by simp
    have s_le_M: "s \<le> int M"
      using ps e_ok(2) by linarith
    have en_le_M: "en \<le> int M"
    proof (rule ccontr)
      assume "\<not> en \<le> int M"
      then have M_lt: "int M < en" by simp
      with b(3) have "M < length t" by linarith
      with Cons.prems(5) have na: "\<not> is_alnum_c (t ! M)" by simp
      have inside: "M - nat s < length (take (nat en - nat s) (drop (nat s) t))"
        using M_lt s_le_M b by auto
      from run have "is_alnum_c (take (nat en - nat s) (drop (nat s) t) ! (M - nat s))"
        using inside unfolding isalnum_def list_all_length by blast
      moreover have "take (nat en - nat s) (drop (nat s) t) ! (M - nat s) = t ! M"
        using inside s_le_M b by auto
      ultimately show False using na by simp
    qed
    have "expand_start orig (start e) = Inr s"
      using expand_start_prefix [OF Cons.prems(4) e_ok(2) Cons.prems(2,3)] s by simp
    then have starts: "\<forall>e' \<in> set es. start e' \<le> s"
      using clear by (simp add: clear_of_def)
    have nsM: "nat s \<le> M"
      using s_le_M by linarith
    have ls: "length (take (nat s) t) = nat s"
      using b by simp
    have i1: "nat s \<le> length t'"
      unfolding t'_eq using ls by simp
    have i2: "nat s \<le> length orig"
      using s_le_M Cons.prems(3) by linarith
    have "take (nat s) t' = take (nat s) t"
      unfolding t'_eq using ls by simp
    also have "\<dots> = take (nat s) (take M t)"
      using nsM by (simp add: min_def)
    also have "\<dots> = take (nat s) (take M orig)"
      using Cons.prems(4) by simp
    also have "\<dots> = take (nat s) orig"
      using nsM by (simp add: min_def)
    finally have i3: "take (nat s) t' = take (nat s) orig" .
    have "t' ! nat s = hd (replacement_of e)"
      unfolding t'_eq using ls e_ok(4) by (simp add: nth_append hd_conv_nth)
    then have i4: "nat s < length t' \<longrightarrow> \<not> is_alnum_c (t' ! nat s)"
      using e_ok(5) by simp
    have i5: "\<forall>e \<in> set es. 0 \<le> start e \<and> start e \<le> int (nat s) \<and> 0 \<le> endpos e
           \<and> replacement_of e \<noteq> [] \<and> \<not> is_alnum_c (hd (replacement_of e))"
      using tail_ok starts b(1) by simp
    from Cons.IH [OF rest i1 i2 i3 i4 i5 tail_sorted]
    have ih: "\<forall>a \<in> set rest. 0 \<le> fst (snd a) \<and> fst (snd a) \<le> start (fst a)
            \<and> endpos (fst a) \<le> snd (snd a) \<and> snd (snd a) \<le> int (nat s)"
      and ih_sorted: "sorted_wrt (\<lambda>a b. snd (snd b) \<le> fst (snd a)) rest"
      by blast+
    have applied: "applied = (e, s, en) # rest"
      using app Some se by simp
    have hd_ok: "0 \<le> s \<and> s \<le> start e \<and> endpos e \<le> en \<and> en \<le> int M"
      using b(1) ps pe en_le_M by blast
    have rest_ok: "\<forall>a \<in> set rest. 0 \<le> fst (snd a) \<and> fst (snd a) \<le> start (fst a)
            \<and> endpos (fst a) \<le> snd (snd a) \<and> snd (snd a) \<le> int M"
      using ih s_le_M b(1) by auto
    have below: "\<forall>a \<in> set rest. snd (snd a) \<le> s"
      using ih b(1) by auto
    show ?thesis
      unfolding applied using hd_ok rest_ok below ih_sorted by simp
  qed
qed

lemma not_alnum_bracket: "\<not> is_alnum_c CHR ''[''"
  by (simp add: is_alnum_c_def is_alpha_c_def is_upper_c_def is_lower_c_def
      is_ascii_lower_c_def is_digit_c_def)

lemma dict_get_bracket: "dict_get k \<noteq> [] \<and> hd (dict_get k) = CHR ''[''"
  by (simp add: dict_get_def replacement_dict_def)

lemma resolve_bracket: "resolve g w \<noteq> [] \<and> hd (resolve g w) = CHR ''[''"
  by (simp add: resolve_def dict_get_bracket)

lemma merged_bracketed:
  assumes "e \<in> set (merge_entities ner (detect_email text @ detect_phone text))"
  shows "replacement_of e \<noteq> [] \<and> \<not> is_alnum_c (hd (replacement_of e))"
proof -
  have "replacement_of e \<noteq> [] \<and> hd (replacement_of e) = CHR ''[''"
    using assms resolve_bracket dict_get_bracket
    by (auto simp: merge_entities_def List.map_filter_def resolve_item_def replacement_of_def
        detect_email_def detect_phone_def phone_entity_def split: item.splits if_splits)
  then show ?thesis
    using not_alnum_bracket by simp
qed

lemma sorted_non_overlapping:
  "sorted_wrt (\<lambda>a b. snd b \<le> fst a) rs \<Longrightarrow> non_overlapping rs"
  by (induction rs) (auto simp: overlap_def list_all_iff)

text \<open>
  C1, as the code has it. The rewrite has no test for overlapping spans. When all offsets
  are non-negative and no entity starts after the first character of the alphanumeric
  run to which the start of an entity handled before it expands in the text, then in
  every run of \<open>anonymize_text\<close> that returns, the slices that were replaced are pairwise
  disjoint in the offsets of the original text, and so are the spans of the entities
  whose replacement was made.
\<close>

theorem applied_spans_disjoint:
  assumes "anonymize_with ner_results text = Inr (anonymized, applied)"
    and "separated text
           (sort_entities (merge_entities ner_results (detect_email text @ detect_phone text)))"
  shows "non_overlapping (map replaced_slice applied) \<and> non_overlapping (map given_span applied)"
proof -
  let ?es = "sort_entities (merge_entities ner_results (detect_email text @ detect_phone text))"
  have run: "rewrite_all text ?es = Inr (anonymized, applied)"
    using assms(1) by (simp add: anonymize_with_def)
  have nonneg: "\<forall>e \<in> set ?es. 0 \<le> start e \<and> 0 \<le> endpos e"
    and clear: "sorted_wrt (clear_of text) ?es"
    using assms(2) by (simp_all add: separated_def list_all_iff)
  have br: "\<forall>e \<in> set ?es. replacement_of e \<noteq> [] \<and> \<not> is_alnum_c (hd (replacement_of e))"
    using merged_bracketed by (simp add: sort_entities_def)
  have within: "\<forall>e \<in> set ?es. start e \<le> int (length text)"
  proof (cases ?es)
    case Nil
    then show ?thesis by simp
  next
    case (Cons e0 rest)
    from run obtain t' made where step: "rewrite_step text e0 = Inr (t', made)"
      unfolding Cons by (cases "rewrite_step text e0") auto
    have e0: "0 \<le> start e0" "0 \<le> endpos e0"
      using nonneg unfolding Cons by simp_all
    from rewrite_step_nonneg [OF e0 step] obtain s where "expand_start text (start e0) = Inr s"
      by blast
    from expand_start_props [OF this e0(1)] have first: "start e0 \<le> int (length text)"
      by (cases "0 < start e0") auto
    have "\<forall>e \<in> set rest. start e \<le> start e0"
      using sort_entities_descending [of "merge_entities ner_results (detect_email text @ detect_phone text)"]
      by (simp add: Cons)
    with first show ?thesis
      unfolding Cons by auto
  qed
  have all: "\<forall>e \<in> set ?es. 0 \<le> start e \<and> start e \<le> int (length text) \<and> 0 \<le> endpos e
           \<and> replacement_of e \<noteq> [] \<and> \<not> is_alnum_c (hd (replacement_of e))"
    using nonneg br within by blast
  from rewrite_all_disjoint [OF run _ _ _ _ all clear]
  have bounds: "\<forall>a \<in> set applied. 0 \<le> fst (snd a) \<and> fst (snd a) \<le> start (fst a)
            \<and> endpos (fst a) \<le> snd (snd a) \<and> snd (snd a) \<le> int (length text)"
    and order: "sorted_wrt (\<lambda>a b. snd (snd b) \<le> fst (snd a)) applied"
    by simp_all
  have "sorted_wrt (\<lambda>a b. snd b \<le> fst a) (map replaced_slice applied)"
    using order by (simp add: sorted_wrt_map replaced_slice_def)
  then have one: "non_overlapping (map replaced_slice applied)"
    by (rule sorted_non_overlapping)
  have "sorted_wrt (\<lambda>a b. endpos (fst b) \<le> start (fst a)) applied"
  proof (rule sorted_wrt_mono_rel [OF _ order])
    fix a b
    assume a: "a \<in> set applied" and b: "b \<in> set applied"
      and le: "snd (snd b) \<le> fst (snd a)"
    from bounds a have "fst (snd a) \<le> start (fst a)"
      by blast
    moreover from bounds b have "endpos (fst b) \<le> snd (snd b)"
      by blast
    ultimately show "endpos (fst b) \<le> start (fst a)"
      using le by linarith
  qed
  then have "sorted_wrt (\<lambda>a b. snd b \<le> fst a) (map given_span applied)"
    by (simp add: sorted_wrt_map given_span_def)
  then have two: "non_overlapping (map given_span applied)"
    by (rule sorted_non_overlapping)
  from one two show ?thesis ..
qed

theorem applied_spans_disjoint_witness:
  "anonymize_with
      [Dict \<lparr>entity_group = Some ''PER'', label = None, raw_start = Some 6, raw_end = Some 10,
         raw_word = Some ''mith''\<rparr>,
       Dict \<lparr>entity_group = Some ''PER'', label = None, raw_start = Some 0, raw_end = Some 4,
         raw_word = Some ''John''\<rparr>]
      ''John Smith works''
     = Inr (''[Person] [person] works'',
         [(\<lparr>entity = ''PER'', start = 6, endpos = 10, word = ''mith'', replacement = Some ''[person]''\<rparr>, 5, 10),
          (\<lparr>entity = ''PER'', start = 0, endpos = 4, word = ''John'', replacement = Some ''[Person]''\<rparr>, 0, 4)])
   \<and> non_overlapping [(5, 10), (0, 4)] \<and> non_overlapping [(6, 10), (0, 4)]"
proof -
  let ?ner = "[Dict \<lparr>entity_group = Some ''PER'', label = None, raw_start = Some 6, raw_end = Some 10,
         raw_word = Some ''mith''\<rparr>,
       Dict \<lparr>entity_group = Some ''PER'', label = None, raw_start = Some 0, raw_end = Some 4,
         raw_word = Some ''John''\<rparr>]"
  let ?applied = "[(\<lparr>entity = ''PER'', start = 6, endpos = 10, word = ''mith'', replacement = Some ''[person]''\<rparr>, 5, 10),
          (\<lparr>entity = ''PER'', start = 0, endpos = 4, word = ''John'', replacement = Some ''[Person]''\<rparr>, 0, 4)]"
  have h1: "anonymize_with ?ner ''John Smith works'' = Inr (''[Person] [person] works'', ?applied)"
    by code_simp
  have h2: "separated ''John Smith works''
     (sort_entities (merge_entities ?ner (detect_email ''John Smith works'' @ detect_phone ''John Smith works'')))"
    by code_simp
  from applied_spans_disjoint [OF h1 h2] h1 show ?thesis
    by (simp add: replaced_slice_def given_span_def)
qed

text \<open>
  C1 as stated fails. Two records for the span 1..5 (\<open>mith\<close>) of the text \<open>Smith\<close> are
  both applied, the second inside the placeholder that the first one left, and the text
  becomes \<open>[[person]]\<close>.
\<close>

theorem overlapping_spans_both_applied:
  "anonymize_with
      [Dict \<lparr>entity_group = Some ''PER'', label = None, raw_start = Some 1, raw_end = Some 5,
         raw_word = Some ''mith''\<rparr>,
       Dict \<lparr>entity_group = Some ''PER'', label = None, raw_start = Some 1, raw_end = Some 5,
         raw_word = Some ''mith''\<rparr>]
      ''Smith''
     = Inr (''[[person]]'',
         [(\<lparr>entity = ''PER'', start = 1, endpos = 5, word = ''mith'', replacement = Some ''[person]''\<rparr>, 0, 5),
          (\<lparr>entity = ''PER'', start = 1, endpos = 5, word = ''mith'', replacement = Some ''[person]''\<rparr>, 1, 7)])
   \<and> overlap (1, 5) (1, 5)
   \<and> \<not> non_overlapping [(1, 5), (1, 5)]"
  by code_simp

end
